theory Spec2Isabelle
  imports Main "HOL-Library.Word" "HOL-Library.Signed_Division"
begin

section \<open>Flowers for Algorithm: the drive state machine and the route search\<close>

text \<open>
  The program is a single C++ file, \<^verbatim>\<open>flowers.cpp\<close>. Its \<^verbatim>\<open>int\<close> is modelled as a
  32-bit word read in two's complement: \<open>+\<close>, \<open>-\<close> and \<open>*\<close> wrap around (what the
  hardware does where C++ leaves signed overflow undefined), comparisons are the signed
  ones (\<open><s\<close>), and \<^verbatim>\<open>/\<close> and \<^verbatim>\<open>%\<close> truncate towards zero. A \<^verbatim>\<open>char\<close> is a
  \<^typ>\<open>char\<close>. An index into \<^verbatim>\<open>nodeWeight\<close> is a natural number: the code's indices are
  loop counters from 0 and results of \<^verbatim>\<open>nodeToNumber\<close>. Console output, the pauses and
  the rat's name take no part in any computed value and are left out.
\<close>

subsection \<open>Machine integers and constants\<close>

type_synonym int32 = "32 word"

definition c_div :: "int32 \<Rightarrow> int32 \<Rightarrow> int32" where
  "c_div a b = word_of_int (sint a sdiv sint b)"

definition c_rem :: "int32 \<Rightarrow> int32 \<Rightarrow> int32" where
  "c_rem a b = word_of_int (sint a smod sint b)"

definition FUN_MAX :: int32 where "FUN_MAX = 35"
definition HEALTH_MAX :: int32 where "HEALTH_MAX = 60"
definition HUNGER_MAX :: int32 where "HUNGER_MAX = 30"
definition SLEEP_MAX :: int32 where "SLEEP_MAX = 40"
definition VERTEX_COUNT :: nat where "VERTEX_COUNT = 18"
definition INFINITY_APPROX :: int32 where "INFINITY_APPROX = 42"

subsection \<open>The drives\<close>

text \<open>\<^verbatim>\<open>struct ratState\<close>. The field \<^verbatim>\<open>fun\<close> is written \<open>fun'\<close>.\<close>

record ratState =
  fun' :: int32
  health :: int32
  hunger :: int32
  sleep :: int32

text \<open>
  \<^verbatim>\<open>initializeDrives\<close>: the four calls of \<^verbatim>\<open>rand()\<close> are the parameters, in call
  order. The C library returns a value between 0 and \<^verbatim>\<open>RAND_MAX\<close> from each.
\<close>

definition initializeDrives :: "int32 \<Rightarrow> int32 \<Rightarrow> int32 \<Rightarrow> int32 \<Rightarrow> ratState" where
  "initializeDrives r1 r2 r3 r4 =
     \<lparr> fun' = c_rem r1 FUN_MAX,
       health = c_rem r2 HEALTH_MAX,
       hunger = c_rem r3 HUNGER_MAX,
       sleep = c_rem r4 SLEEP_MAX \<rparr>"

definition setPercentage :: "ratState \<Rightarrow> ratState" where
  "setPercentage drives =
     \<lparr> fun' = c_div (100 * fun' drives) FUN_MAX,
       health = c_div (100 * health drives) HEALTH_MAX,
       hunger = c_div (100 * hunger drives) HUNGER_MAX,
       sleep = c_div (100 * sleep drives) SLEEP_MAX \<rparr>"

text \<open>
  \<^verbatim>\<open>identifyState\<close>: the running minimum \<^verbatim>\<open>index\<close> and the letter \<^verbatim>\<open>biggestNeed\<close>
  are threaded through the three comparisons, then the threshold test.
\<close>

definition identifyState :: "ratState \<Rightarrow> char" where
  "identifyState drives =
     (let percent = setPercentage drives;
          index0 = health percent;
          biggestNeed0 = CHR ''M'';
          (index1, biggestNeed1) =
             (if hunger percent <s index0 then (hunger percent, CHR ''F'')
              else (index0, biggestNeed0));
          (index2, biggestNeed2) =
             (if sleep percent <s index1 then (sleep percent, CHR ''N'')
              else (index1, biggestNeed1));
          (index3, biggestNeed3) =
             (if fun' percent <s index2 then (fun' percent, CHR ''W'')
              else (index2, biggestNeed2))
      in if 50 <s index3 then CHR ''E'' else biggestNeed3)"

text \<open>\<^verbatim>\<open>updateState\<close>: each drive is decremented and then reset to 0 when negative.\<close>

definition decrement :: "int32 \<Rightarrow> int32 \<Rightarrow> int32" where
  "decrement v travel = (let v' = v - travel in if v' <s 0 then 0 else v')"

definition updateState :: "ratState \<Rightarrow> int32 \<Rightarrow> ratState" where
  "updateState drives travel =
     \<lparr> fun' = decrement (fun' drives) travel,
       health = decrement (health drives) travel,
       hunger = decrement (hunger drives) travel,
       sleep = decrement (sleep drives) travel \<rparr>"

text \<open>\<^verbatim>\<open>satisfyNeed\<close>: the \<^verbatim>\<open>switch\<close> on the current location, cases in source order.\<close>

definition satisfyNeed :: "ratState \<Rightarrow> char \<Rightarrow> ratState" where
  "satisfyNeed drives currentLocation =
     (if currentLocation = CHR ''F'' then drives\<lparr>hunger := HUNGER_MAX\<rparr>
      else if currentLocation = CHR ''M'' then drives\<lparr>health := HEALTH_MAX\<rparr>
      else if currentLocation = CHR ''N'' then drives\<lparr>sleep := SLEEP_MAX\<rparr>
      else if currentLocation = CHR ''W'' then drives\<lparr>fun' := FUN_MAX\<rparr>
      else drives)"

text \<open>The declared bounds of the four drives.\<close>

definition in_bounds :: "ratState \<Rightarrow> bool" where
  "in_bounds d \<longleftrightarrow>
     0 \<le>s fun' d \<and> fun' d \<le>s FUN_MAX \<and>
     0 \<le>s health d \<and> health d \<le>s HEALTH_MAX \<and>
     0 \<le>s hunger d \<and> hunger d \<le>s HUNGER_MAX \<and>
     0 \<le>s sleep d \<and> sleep d \<le>s SLEEP_MAX"

text \<open>
  A history of the simulation's drive updates: the decay by a travelled distance and the
  satisfaction at an arrival node, applied from left to right.
\<close>

datatype drive_op = Decay int32 | Arrive char

fun apply_drive_op :: "ratState \<Rightarrow> drive_op \<Rightarrow> ratState" where
  "apply_drive_op d (Decay travel) = updateState d travel"
| "apply_drive_op d (Arrive c) = satisfyNeed d c"

fun nonneg_op :: "drive_op \<Rightarrow> bool" where
  "nonneg_op (Decay travel) = (0 \<le>s travel)"
| "nonneg_op (Arrive c) = True"

definition run_drive_ops :: "ratState \<Rightarrow> drive_op list \<Rightarrow> ratState" where
  "run_drive_ops d ops = foldl apply_drive_op d ops"

subsection \<open>The graph\<close>

text \<open>
  \<^verbatim>\<open>struct edgeWeight\<close>. The arrays \<^verbatim>\<open>baseGraph\<close> and \<^verbatim>\<open>newGraph\<close> have \<^verbatim>\<open>VERTEX_COUNT\<close>
  entries and \<^verbatim>\<open>nodeWeight\<close> has \<^verbatim>\<open>VERTEX_COUNT/2\<close>; an array is the list of its entries,
  and a \<^verbatim>\<open>for\<close> loop over all its indices is the traversal of the list.
\<close>

record edgeWeight =
  initial :: char
  terminal :: char
  weight :: int32

text \<open>
  The program has no error results of its own. What can go wrong in the search is the
  read of a local variable that no branch has assigned, which the C++ standard leaves
  undefined; the model stops there and says which variable it was:
  \<^verbatim>\<open>nodeNumber\<close> in \<^verbatim>\<open>nodeToNumber\<close> (no \<^verbatim>\<open>case\<close> matched the letter),
  \<^verbatim>\<open>nodeLetter\<close> in \<^verbatim>\<open>numberToNode\<close> (no \<^verbatim>\<open>case\<close> matched the number),
  \<^verbatim>\<open>node\<close> in \<^verbatim>\<open>findLeast\<close> (no entry passed the test in the loop).
\<close>

datatype fault = Unassigned_nodeNumber | Unassigned_nodeLetter | Unassigned_node

definition nodeToNumber :: "char \<Rightarrow> fault + nat" where
  "nodeToNumber nodeLetter =
     (if nodeLetter = CHR ''E'' then Inr 0
      else if nodeLetter = CHR ''N'' then Inr 1
      else if nodeLetter = CHR ''F'' then Inr 2
      else if nodeLetter = CHR ''A'' then Inr 3
      else if nodeLetter = CHR ''W'' then Inr 4
      else if nodeLetter = CHR ''B'' then Inr 5
      else if nodeLetter = CHR ''M'' then Inr 6
      else Inl Unassigned_nodeNumber)"

definition numberToNode :: "nat \<Rightarrow> fault + char" where
  "numberToNode nodeNumber =
     (if nodeNumber = 0 then Inr (CHR ''E'')
      else if nodeNumber = 1 then Inr (CHR ''N'')
      else if nodeNumber = 2 then Inr (CHR ''F'')
      else if nodeNumber = 3 then Inr (CHR ''A'')
      else if nodeNumber = 4 then Inr (CHR ''W'')
      else if nodeNumber = 5 then Inr (CHR ''B'')
      else if nodeNumber = 6 then Inr (CHR ''M'')
      else Inl Unassigned_nodeLetter)"

definition node_letters :: "char list" where
  "node_letters = [CHR ''E'', CHR ''N'', CHR ''F'', CHR ''A'', CHR ''W'', CHR ''B'', CHR ''M'']"

text \<open>
  The input stream of \<^verbatim>\<open>loadGraph\<close>: the characters of the file not yet read, and the
  stream's fail bit. Once the bit is set every later extraction does nothing.
\<close>

record istream =
  buffer :: string
  failbit :: bool

definition isspace :: "char \<Rightarrow> bool" where
  "isspace c \<longleftrightarrow> c \<in> set [CHR '' '', CHR 0x09, CHR 0x0A, CHR 0x0B, CHR 0x0C, CHR 0x0D]"

definition isdigit :: "char \<Rightarrow> bool" where
  "isdigit c \<longleftrightarrow> 48 \<le> (of_char c :: nat) \<and> (of_char c :: nat) \<le> 57"

definition digit_value :: "char \<Rightarrow> int" where
  "digit_value c = int (of_char c) - 48"

definition decimal :: "string \<Rightarrow> int" where
  "decimal ds = foldl (\<lambda>v c. 10 * v + digit_value c) 0 ds"

text \<open>
  \<^verbatim>\<open>inFile >> c\<close> for a \<^verbatim>\<open>char\<close>: white space is skipped and the next character is
  taken. At the end of the input the extraction fails and the target keeps its value.
\<close>

definition extract_char :: "istream \<Rightarrow> char \<Rightarrow> istream \<times> char" where
  "extract_char s target =
     (if failbit s then (s, target)
      else case dropWhile isspace (buffer s) of
             [] \<Rightarrow> (\<lparr>buffer = [], failbit = True\<rparr>, target)
           | c # rest \<Rightarrow> (\<lparr>buffer = rest, failbit = False\<rparr>, c))"

text \<open>
  \<^verbatim>\<open>inFile >> n\<close> for an \<^verbatim>\<open>int\<close>: white space is skipped, then an optional sign and the
  decimal digits that follow are taken. At the end of the input the extraction fails
  and the target keeps its value; with no digit it fails and stores 0; a value out of
  the range of \<^verbatim>\<open>int\<close> fails and stores the nearest bound.
\<close>

definition extract_int :: "istream \<Rightarrow> int32 \<Rightarrow> istream \<times> int32" where
  "extract_int s target =
     (if failbit s then (s, target)
      else let r = dropWhile isspace (buffer s)
           in if r = [] then (\<lparr>buffer = [], failbit = True\<rparr>, target)
              else
                let negative = (hd r = CHR ''-'');
                    body = (if hd r = CHR ''-'' \<or> hd r = CHR ''+'' then tl r else r);
                    digits = takeWhile isdigit body;
                    rest = dropWhile isdigit body;
                    v = (if negative then - decimal digits else decimal digits)
                in if digits = [] then (\<lparr>buffer = rest, failbit = True\<rparr>, 0)
                   else if v < - 2147483648
                     then (\<lparr>buffer = rest, failbit = True\<rparr>, word_of_int (- 2147483648))
                   else if 2147483647 < v
                     then (\<lparr>buffer = rest, failbit = True\<rparr>, word_of_int 2147483647)
                   else (\<lparr>buffer = rest, failbit = False\<rparr>, word_of_int v))"

text \<open>
  One pass of the loop of \<^verbatim>\<open>loadGraph\<close>: the three extractions into the fields of
  \<^verbatim>\<open>baseGraph[i]\<close>, one after the other, none of them checked.
\<close>

definition read_entry :: "istream \<Rightarrow> edgeWeight \<Rightarrow> istream \<times> edgeWeight" where
  "read_entry s e =
     (let (s1, a) = extract_char s (initial e);
          (s2, b) = extract_char s1 (terminal e);
          (s3, w) = extract_int s2 (weight e)
      in (s3, \<lparr>initial = a, terminal = b, weight = w\<rparr>))"

fun read_graph :: "istream \<Rightarrow> edgeWeight list \<Rightarrow> edgeWeight list" where
  "read_graph s [] = []"
| "read_graph s (e # es) = (case read_entry s e of (s', e') \<Rightarrow> e' # read_graph s' es)"

text \<open>
  \<^verbatim>\<open>loadGraph\<close>. The file is \<open>None\<close> when it cannot be opened and its text otherwise. The
  array argument is the content of \<^verbatim>\<open>baseGraph\<close> before the call.
\<close>

definition loadGraph :: "string option \<Rightarrow> edgeWeight list \<Rightarrow> bool \<times> edgeWeight list" where
  "loadGraph inFile baseGraph =
     (case inFile of
        None \<Rightarrow> (False, baseGraph)
      | Some text \<Rightarrow> (True, read_graph \<lparr>buffer = text, failbit = False\<rparr> baseGraph))"

definition copyGraph :: "edgeWeight list \<Rightarrow> edgeWeight list" where
  "copyGraph baseGraph =
     map (\<lambda>e. \<lparr> initial = initial e, terminal = terminal e, weight = weight e \<rparr>) baseGraph"

subsection \<open>The route search\<close>

definition initializeNodeWeight :: "int32 list" where
  "initializeNodeWeight = replicate (VERTEX_COUNT div 2) INFINITY_APPROX"

text \<open>\<^verbatim>\<open>findNeighbors\<close>: the first argument is the part of \<^verbatim>\<open>newGraph\<close> still to visit.\<close>

fun findNeighbors :: "edgeWeight list \<Rightarrow> int32 list \<Rightarrow> char \<Rightarrow> nat \<Rightarrow> fault + int32 list" where
  "findNeighbors [] nodeWeight currentNode currentNum = Inr nodeWeight"
| "findNeighbors (e # es) nodeWeight currentNode currentNum =
     (if currentNode = initial e then
        (case nodeToNumber (terminal e) of
           Inl f \<Rightarrow> Inl f
         | Inr neighborNode \<Rightarrow>
             findNeighbors es
               (if weight e + nodeWeight ! currentNum <s nodeWeight ! neighborNode
                then nodeWeight[neighborNode := weight e + nodeWeight ! currentNum]
                else nodeWeight)
               currentNode currentNum)
      else findNeighbors es nodeWeight currentNode currentNum)"

definition removeVertex :: "edgeWeight list \<Rightarrow> char \<Rightarrow> edgeWeight list" where
  "removeVertex newGraph currentLocation =
     map (\<lambda>e. if terminal e = currentLocation
              then e\<lparr>initial := CHR ''Z'', terminal := CHR ''Z''\<rparr>
              else e) newGraph"

text \<open>
  \<^verbatim>\<open>findLeast\<close>: the loop over \<^verbatim>\<open>nodeWeight\<close> carries the index \<open>i\<close>, \<^verbatim>\<open>base\<close> and
  \<^verbatim>\<open>node\<close>, which is \<open>None\<close> until the loop assigns it.
\<close>

fun findLeast_loop :: "int32 list \<Rightarrow> nat \<Rightarrow> int32 \<Rightarrow> nat option \<Rightarrow> nat option" where
  "findLeast_loop [] i base node = node"
| "findLeast_loop (w # ws) i base node =
     (if w \<noteq> 0 \<and> w <s base then findLeast_loop ws (Suc i) w (Some i)
      else findLeast_loop ws (Suc i) base node)"

definition findLeast :: "int32 list \<Rightarrow> fault + char" where
  "findLeast nodeWeight =
     (case findLeast_loop nodeWeight 0 42 None of
        None \<Rightarrow> Inl Unassigned_node
      | Some node \<Rightarrow> numberToNode node)"

text \<open>One pass through the body of the \<^verbatim>\<open>while\<close> loop of \<^verbatim>\<open>findRoute\<close>.\<close>

definition route_step ::
  "edgeWeight list \<Rightarrow> int32 list \<Rightarrow> char \<Rightarrow> nat \<Rightarrow>
     fault + (edgeWeight list \<times> int32 list \<times> char \<times> nat)" where
  "route_step newGraph nodeWeight currentNode currentNum =
     (case findNeighbors newGraph nodeWeight currentNode currentNum of
        Inl f \<Rightarrow> Inl f
      | Inr nodeWeight1 \<Rightarrow>
          (let newGraph' = removeVertex newGraph currentNode;
               nodeWeight' = nodeWeight1[currentNum := 0]
           in case findLeast nodeWeight' of
                Inl f \<Rightarrow> Inl f
              | Inr currentNode' \<Rightarrow>
                  (case nodeToNumber currentNode' of
                     Inl f \<Rightarrow> Inl f
                   | Inr currentNum' \<Rightarrow>
                       Inr (newGraph', nodeWeight', currentNode', currentNum'))))"

text \<open>
  The termination measure of the loop. A node index counts while its weight entry is
  not 0 or an edge of the working graph still ends at its letter. The current node is
  dropped from that set by each pass, and no pass adds to it.
\<close>

definition live :: "edgeWeight list \<Rightarrow> int32 list \<Rightarrow> nat \<Rightarrow> bool" where
  "live g nw n \<longleftrightarrow>
     (n < length nw \<and> nw ! n \<noteq> 0) \<or> (\<exists>e \<in> set g. nodeToNumber (terminal e) = Inr n)"

definition route_measure :: "edgeWeight list \<times> int32 list \<times> char \<times> nat \<Rightarrow> nat" where
  "route_measure s =
     (case s of (g, nw, c, n) \<Rightarrow>
        2 * card {k. k < 7 \<and> live g nw k} +
        (if nodeToNumber c = Inr n \<and> live g nw n then 0 else 1))"

subsection \<open>Termination of the search loop\<close>

lemma numberToNode_inverse: "numberToNode k = Inr c \<Longrightarrow> nodeToNumber c = Inr k \<and> k < 7"
  by (auto simp: numberToNode_def nodeToNumber_def split: if_splits)

lemma nodeToNumber_inverse: "nodeToNumber c = Inr k \<Longrightarrow> numberToNode k = Inr c \<and> k < 7"
  by (auto simp: numberToNode_def nodeToNumber_def split: if_splits)

lemma findLeast_loop_Some:
  "findLeast_loop ws i base node = Some k \<Longrightarrow>
     node = Some k \<or> (i \<le> k \<and> k < i + length ws \<and> ws ! (k - i) \<noteq> 0 \<and> ws ! (k - i) <s base)"
proof (induction ws arbitrary: i base node)
  case Nil
  then show ?case by simp
next
  case (Cons w ws)
  show ?case
  proof (cases "w \<noteq> 0 \<and> w <s base")
    case True
    with Cons.prems have "findLeast_loop ws (Suc i) w (Some i) = Some k" by simp
    from Cons.IH [OF this] True show ?thesis
      by (auto simp: nth_Cons' Suc_diff_le  dest: signed.less_trans)
  next
    case False
    with Cons.prems have "findLeast_loop ws (Suc i) base node = Some k" by auto
    from Cons.IH [OF this] show ?thesis
      by (auto simp: nth_Cons' Suc_diff_le)
  qed
qed

lemma findLeast_Inr:
  assumes "findLeast nw = Inr c"
  shows "\<exists>k. k < length nw \<and> nw ! k \<noteq> 0 \<and> nw ! k <s 42 \<and> numberToNode k = Inr c"
proof -
  from assms obtain k where k: "findLeast_loop nw 0 42 None = Some k" "numberToNode k = Inr c"
    by (auto simp: findLeast_def split: option.splits)
  from findLeast_loop_Some [OF k(1)] k(2) show ?thesis by auto
qed

lemma findNeighbors_length:
  "findNeighbors es nw c n = Inr nw' \<Longrightarrow> length nw' = length nw"
  by (induction es arbitrary: nw) (auto split: if_splits sum.splits)

lemma findNeighbors_changed:
  "findNeighbors es nw c n = Inr nw' \<Longrightarrow> k < length nw \<Longrightarrow> nw' ! k \<noteq> nw ! k \<Longrightarrow>
     \<exists>e \<in> set es. nodeToNumber (terminal e) = Inr k"
proof (induction es arbitrary: nw)
  case Nil
  then show ?case by simp
next
  case (Cons e es)
  show ?case
  proof (cases "c = initial e")
    case False
    with Cons show ?thesis by auto
  next
    case True
    with Cons.prems(1) obtain m where m: "nodeToNumber (terminal e) = Inr m"
      by (auto split: sum.splits)
    let ?nw1 = "if weight e + nw ! n <s nw ! m then nw[m := weight e + nw ! n] else nw"
    from Cons.prems(1) True m have r: "findNeighbors es ?nw1 c n = Inr nw'" by simp
    have len: "k < length ?nw1" using Cons.prems(2) by simp
    show ?thesis
    proof (cases "nw' ! k = ?nw1 ! k")
      case False
      from Cons.IH [OF r len False] show ?thesis by auto
    next
      case True
      with Cons.prems(3) have "?nw1 ! k \<noteq> nw ! k" by simp
      then have "k = m" by (cases "k = m") (auto split: if_splits)
      with m show ?thesis by auto
    qed
  qed
qed

lemma nodeToNumber_not_Z: "nodeToNumber c = Inr k \<Longrightarrow> c \<noteq> CHR ''Z''"
  by (auto simp: nodeToNumber_def)

lemma removeVertex_terminal:
  assumes "e' \<in> set (removeVertex g c)" "nodeToNumber (terminal e') = Inr k"
  shows "e' \<in> set g \<and> terminal e' \<noteq> c"
proof -
  from assms(2) have "terminal e' \<noteq> CHR ''Z''" by (rule nodeToNumber_not_Z)
  with assms(1) show ?thesis by (auto simp: removeVertex_def split: if_splits)
qed

lemma route_step_live:
  assumes "route_step g nw c n = Inr (g', nw', c', n')"
  shows "nodeToNumber c' = Inr n'" and "live g' nw' n'" and "n' < 7"
    and "\<And>k. live g' nw' k \<Longrightarrow> live g nw k"
    and "nodeToNumber c = Inr n \<Longrightarrow> \<not> live g' nw' n"
proof -
  from assms obtain nw1 where
    fn: "findNeighbors g nw c n = Inr nw1" and
    g': "g' = removeVertex g c" and nw': "nw' = nw1[n := 0]" and
    fl: "findLeast nw' = Inr c'" and n': "nodeToNumber c' = Inr n'"
    by (auto simp: route_step_def Let_def split: sum.splits)
  show "nodeToNumber c' = Inr n'" by (rule n')
  from findLeast_Inr [OF fl] obtain k where
    k: "k < length nw'" "nw' ! k \<noteq> 0" "numberToNode k = Inr c'" by auto
  from numberToNode_inverse [OF k(3)] n' have kn: "k = n'" "n' < 7" by auto
  show "n' < 7" by (rule kn)
  show "live g' nw' n'" using k kn by (auto simp: live_def)
  have len: "length nw1 = length nw" by (rule findNeighbors_length [OF fn])
  show "live g nw k" if "live g' nw' k" for k
  proof -
    from that consider "k < length nw'" "nw' ! k \<noteq> 0"
      | e where "e \<in> set g'" "nodeToNumber (terminal e) = Inr k"
      by (auto simp: live_def)
    then show ?thesis
    proof cases
      case 1
      then have kl: "k < length nw" and nz: "nw1 ! k \<noteq> 0"
        using len nw' by (cases "k = n"; simp)+
      show ?thesis
      proof (cases "nw1 ! k = nw ! k")
        case True
        with kl nz show ?thesis by (auto simp: live_def)
      next
        case False
        from findNeighbors_changed [OF fn kl False] show ?thesis by (auto simp: live_def)
      qed
    next
      case 2
      with removeVertex_terminal [of e g c k] g' show ?thesis by (auto simp: live_def)
    qed
  qed
  show "\<not> live g' nw' n" if c: "nodeToNumber c = Inr n"
  proof
    assume "live g' nw' n"
    then consider "n < length nw'" "nw' ! n \<noteq> 0"
      | e where "e \<in> set g'" "nodeToNumber (terminal e) = Inr n"
      by (auto simp: live_def)
    then show False
    proof cases
      case 1
      then show False using nw' by simp
    next
      case 2
      with removeVertex_terminal [of e g c n] g' have "terminal e \<noteq> c" by simp
      moreover from 2(2) c have "terminal e = c"
        using nodeToNumber_inverse by (metis sum.inject(2))
      ultimately show False by simp
    qed
  qed
qed

lemma route_step_measure:
  assumes "route_step g nw c n = Inr (g', nw', c', n')"
  shows "route_measure (g', nw', c', n') < route_measure (g, nw, c, n)"
proof -
  note L = route_step_live [OF assms]
  let ?A = "{k. k < 7 \<and> live g nw k}" and ?A' = "{k. k < 7 \<and> live g' nw' k}"
  have fin: "finite ?A" by simp
  have sub: "?A' \<subseteq> ?A" using L(4) by auto
  have m': "route_measure (g', nw', c', n') = 2 * card ?A'"
    using L(1,2) by (simp add: route_measure_def)
  show ?thesis
  proof (cases "nodeToNumber c = Inr n \<and> live g nw n")
    case True
    then have "n \<in> ?A" using nodeToNumber_inverse [of c n] by simp
    moreover have "n \<notin> ?A'" using L(5) True by simp
    ultimately have "?A' \<subset> ?A" using sub by auto
    then have "card ?A' < card ?A" by (rule psubset_card_mono [OF fin])
    with True m' show ?thesis by (simp add: route_measure_def)
  next
    case False
    have "card ?A' \<le> card ?A" by (rule card_mono [OF fin sub])
    with False m' show ?thesis by (auto simp add: route_measure_def)
  qed
qed

text \<open>
  The \<^verbatim>\<open>while\<close> loop of \<^verbatim>\<open>findRoute\<close>, from its test on. It returns what
  \<^verbatim>\<open>findRoute\<close> returns: the weight entry of the node reached, and that node, which
  the caller's \<^verbatim>\<open>currentLocation\<close> becomes.
\<close>

function route_loop ::
  "char \<Rightarrow> edgeWeight list \<Rightarrow> int32 list \<Rightarrow> char \<Rightarrow> nat \<Rightarrow> fault + (int32 \<times> char)" where
  "route_loop terminalNode newGraph nodeWeight currentNode currentNum =
     (if currentNode \<noteq> terminalNode then
        (case route_step newGraph nodeWeight currentNode currentNum of
           Inl f \<Rightarrow> Inl f
         | Inr (newGraph', nodeWeight', currentNode', currentNum') \<Rightarrow>
             route_loop terminalNode newGraph' nodeWeight' currentNode' currentNum')
      else Inr (nodeWeight ! currentNum, currentNode))"
  by pat_completeness auto
termination
  by (relation "measure (\<lambda>(t, s). route_measure s)") (auto simp: route_step_measure)

text \<open>\<^verbatim>\<open>findRoute\<close>: the distance returned and the new \<^verbatim>\<open>currentLocation\<close>.\<close>

definition findRoute :: "edgeWeight list \<Rightarrow> char \<Rightarrow> char \<Rightarrow> fault + (int32 \<times> char)" where
  "findRoute newGraph currentLocation currentState =
     (let currentNode = currentLocation;
          terminalNode = currentState;
          nodeWeight = initializeNodeWeight
      in case nodeToNumber currentNode of
           Inl f \<Rightarrow> Inl f
         | Inr currentNum \<Rightarrow>
             route_loop terminalNode newGraph (nodeWeight[currentNum := 0])
               currentNode currentNum)"

subsection \<open>Paths and their costs\<close>

text \<open>
  What the claims about the search are measured against. A path from \<open>a\<close> to \<open>b\<close> is a
  list of edges of the graph, each starting where the one before it ends; its cost is
  the sum of its weights. A cost is least when some path has it and no path has less.
\<close>

fun is_path :: "edgeWeight list \<Rightarrow> char \<Rightarrow> edgeWeight list \<Rightarrow> char \<Rightarrow> bool" where
  "is_path g a [] b = (a = b)"
| "is_path g a (e # p) b = (e \<in> set g \<and> initial e = a \<and> is_path g (terminal e) p b)"

definition cost :: "edgeWeight list \<Rightarrow> int" where
  "cost p = sum_list (map (\<lambda>e. sint (weight e)) p)"

definition reachable :: "edgeWeight list \<Rightarrow> char \<Rightarrow> char \<Rightarrow> bool" where
  "reachable g a b \<longleftrightarrow> (\<exists>p. is_path g a p b)"

definition least_cost :: "edgeWeight list \<Rightarrow> char \<Rightarrow> char \<Rightarrow> int \<Rightarrow> bool" where
  "least_cost g a b c \<longleftrightarrow>
     (\<exists>p. is_path g a p b \<and> cost p = c) \<and> (\<forall>p. is_path g a p b \<longrightarrow> c \<le> cost p)"

text \<open>
  The graph file's format: both ends of every edge are node letters. The file
  \<^verbatim>\<open>graphWeights\<close> itself is not part of the sources, so the graph is a parameter.
\<close>

definition valid_graph :: "edgeWeight list \<Rightarrow> bool" where
  "valid_graph g \<longleftrightarrow>
     list_all (\<lambda>e. initial e \<in> set node_letters \<and> terminal e \<in> set node_letters) g"

text \<open>Every edge from \<open>src\<close> to another node has a positive weight.\<close>

definition source_edges_positive :: "edgeWeight list \<Rightarrow> char \<Rightarrow> bool" where
  "source_edges_positive g src \<longleftrightarrow>
     list_all (\<lambda>e. initial e = src \<and> terminal e \<noteq> src \<longrightarrow> 0 <s weight e) g"

definition nonnegative_weights :: "edgeWeight list \<Rightarrow> bool" where
  "nonnegative_weights g \<longleftrightarrow> list_all (\<lambda>e. 0 \<le>s weight e) g"

text \<open>Three graphs of 18 edges on which the search is run below.\<close>

definition edge :: "char \<Rightarrow> char \<Rightarrow> int32 \<Rightarrow> edgeWeight" where
  "edge a b w = \<lparr> initial = a, terminal = b, weight = w \<rparr>"

definition maze :: "edgeWeight list" where
  "maze =
    [edge (CHR ''E'') (CHR ''A'') 1, edge (CHR ''A'') (CHR ''E'') 1,
     edge (CHR ''A'') (CHR ''N'') 2, edge (CHR ''N'') (CHR ''A'') 2,
     edge (CHR ''A'') (CHR ''F'') 2, edge (CHR ''F'') (CHR ''A'') 2,
     edge (CHR ''A'') (CHR ''B'') 1, edge (CHR ''B'') (CHR ''A'') 1,
     edge (CHR ''B'') (CHR ''W'') 1, edge (CHR ''W'') (CHR ''B'') 1,
     edge (CHR ''B'') (CHR ''M'') 2, edge (CHR ''M'') (CHR ''B'') 2,
     edge (CHR ''F'') (CHR ''M'') 3, edge (CHR ''M'') (CHR ''F'') 3,
     edge (CHR ''N'') (CHR ''W'') 3, edge (CHR ''W'') (CHR ''N'') 3,
     edge (CHR ''E'') (CHR ''N'') 4, edge (CHR ''N'') (CHR ''E'') 4]"

text \<open>The same maze with weight 0 on the two edges between \<open>E\<close> and \<open>A\<close>.\<close>

definition maze_zero :: "edgeWeight list" where
  "maze_zero =
     maze[0 := edge (CHR ''E'') (CHR ''A'') 0, 1 := edge (CHR ''A'') (CHR ''E'') 0]"

text \<open>The same maze with weight 0 on the edge from \<open>B\<close> to \<open>M\<close>, away from \<open>E\<close>.\<close>

definition maze_inner_zero :: "edgeWeight list" where
  "maze_inner_zero = maze[10 := edge (CHR ''B'') (CHR ''M'') 0]"

text \<open>The same maze with the two edges into \<open>M\<close> turned around: no edge ends at \<open>M\<close>.\<close>

definition maze_cut :: "edgeWeight list" where
  "maze_cut =
     maze[10 := edge (CHR ''M'') (CHR ''B'') 2, 12 := edge (CHR ''M'') (CHR ''F'') 3]"

text \<open>
  A well-formed triple as an array entry and as text: the two letters and the weight in
  decimal, separated by blanks, and a line end. \<open>short_file\<close> holds the first 17 edges of
  the maze in that form.
\<close>

definition triple_edge :: "char \<times> char \<times> int32 \<Rightarrow> edgeWeight" where
  "triple_edge t = (case t of (a, b, w) \<Rightarrow> \<lparr> initial = a, terminal = b, weight = w \<rparr>)"

definition digit_char :: "nat \<Rightarrow> char" where
  "digit_char d = ''0123456789'' ! d"

fun show_nat :: "nat \<Rightarrow> string" where
  "show_nat n = (if n < 10 then [digit_char n] else show_nat (n div 10) @ [digit_char (n mod 10)])"

definition show_int :: "int32 \<Rightarrow> string" where
  "show_int w =
     (if sint w < 0 then CHR ''-'' # show_nat (nat (- sint w)) else show_nat (nat (sint w)))"

definition show_triple :: "char \<times> char \<times> int32 \<Rightarrow> string" where
  "show_triple t =
     (case t of (a, b, w) \<Rightarrow> [a, CHR '' '', b, CHR '' ''] @ show_int w @ [CHR 0x0A])"

definition render :: "(char \<times> char \<times> int32) list \<Rightarrow> string" where
  "render ts = concat (map show_triple ts)"

definition plain_triples :: "(char \<times> char \<times> int32) list \<Rightarrow> bool" where
  "plain_triples ts \<longleftrightarrow> list_all (\<lambda>t. \<not> isspace (fst t) \<and> \<not> isspace (fst (snd t))) ts"

definition short_file :: string where
  "short_file =
     ''E A 1\<newline>A E 1\<newline>A N 2\<newline>N A 2\<newline>A F 2\<newline>F A 2\<newline>A B 1\<newline>B A 1\<newline>B W 1\<newline>W B 1\<newline>B M 2\<newline>M B 2\<newline>F M 3\<newline>M F 3\<newline>N W 3\<newline>W N 3\<newline>E N 4\<newline>''"

text \<open>An array content to stand for what \<^verbatim>\<open>baseGraph\<close> holds before the call.\<close>

definition stale_array :: "edgeWeight list" where
  "stale_array = replicate VERTEX_COUNT (edge (CHR ''?'') (CHR ''?'') (- 1))"

subsection \<open>Invariants of the search loop\<close>

text \<open>
  The working graph after the nodes of \<open>V\<close> have been removed from the graph \<open>g\<close>, by
  \<^verbatim>\<open>removeVertex\<close> one after the other.
\<close>

definition prune :: "char set \<Rightarrow> edgeWeight list \<Rightarrow> edgeWeight list" where
  "prune V g =
     map (\<lambda>e. if terminal e \<in> V then e\<lparr>initial := CHR ''Z'', terminal := CHR ''Z''\<rparr> else e) g"

text \<open>
  When the target cannot be reached: the current node can be, every node whose weight
  entry has left 42 can be, and the working graph holds edges of the graph and removed
  ones only.
\<close>

definition unreached_inv ::
  "edgeWeight list \<Rightarrow> char \<Rightarrow> edgeWeight list \<Rightarrow> int32 list \<Rightarrow> char \<Rightarrow> nat \<Rightarrow> bool" where
  "unreached_inv g0 src g nw c n \<longleftrightarrow>
     nodeToNumber c = Inr n \<and> reachable g0 src c \<and> length nw = 9 \<and>
     (\<forall>k < 9. nw ! k \<noteq> 42 \<longrightarrow> (\<exists>b. numberToNode k = Inr b \<and> reachable g0 src b)) \<and>
     (\<forall>e \<in> set g. e \<in> set g0 \<or> initial e = CHR ''Z'')"

text \<open>
  Where no edge of weight 0 leaves the source. The weight entry of a node \<open>u\<close> not yet visited, with index \<open>k\<close>, is
  positive and at most 42; below 42 it is the cost of a path from the source; and it is at
  most the least cost of a visited node plus the weight of an edge from that node to \<open>u\<close>.
\<close>

definition tentative ::
  "edgeWeight list \<Rightarrow> char \<Rightarrow> char set \<Rightarrow> int32 list \<Rightarrow> char \<Rightarrow> nat \<Rightarrow> bool" where
  "tentative g0 src V nw u k \<longleftrightarrow>
     0 < sint (nw ! k) \<and> sint (nw ! k) \<le> 42 \<and>
     (sint (nw ! k) < 42 \<longrightarrow> (\<exists>p. is_path g0 src p u \<and> cost p = sint (nw ! k))) \<and>
     (\<forall>e \<in> set g0. initial e \<in> V \<longrightarrow> terminal e = u \<longrightarrow>
        (\<forall>d. least_cost g0 src (initial e) d \<longrightarrow> sint (nw ! k) \<le> d + sint (weight e)))"

text \<open>Every visited node has the entry 0 and a least cost from the source.\<close>

definition visited ::
  "edgeWeight list \<Rightarrow> char \<Rightarrow> char set \<Rightarrow> int32 list \<Rightarrow> bool" where
  "visited g0 src V nw \<longleftrightarrow>
     (\<forall>v \<in> V. \<exists>k d. nodeToNumber v = Inr k \<and> nw ! k = 0 \<and> least_cost g0 src v d)"

text \<open>
  At the test of the loop, with \<open>V\<close> the nodes visited so far: the entry of the current
  node is its least cost from the source, and below 42.
\<close>

definition search_inv ::
  "edgeWeight list \<Rightarrow> char \<Rightarrow> char set \<Rightarrow> edgeWeight list \<Rightarrow> int32 list \<Rightarrow> char \<Rightarrow> nat \<Rightarrow> bool"
  where
  "search_inv g0 src V g nw c n \<longleftrightarrow>
     nodeToNumber c = Inr n \<and> length nw = 9 \<and> nw ! 7 = 42 \<and> nw ! 8 = 42 \<and>
     c \<notin> V \<and> g = prune V g0 \<and> src \<in> insert c V \<and> visited g0 src V nw \<and>
     least_cost g0 src c (sint (nw ! n)) \<and> sint (nw ! n) < 42 \<and>
     (\<forall>u k. nodeToNumber u = Inr k \<longrightarrow> u \<notin> V \<longrightarrow> u \<noteq> c \<longrightarrow> tentative g0 src V nw u k)"

text \<open>Weights that are not negative and cannot make the sum with an entry below 42 wrap.\<close>

definition safe_weights :: "edgeWeight list \<Rightarrow> bool" where
  "safe_weights g \<longleftrightarrow> (\<forall>e \<in> set g. 0 \<le> sint (weight e) \<and> sint (weight e) < 2147483606)"

subsection \<open>Signed arithmetic on 32-bit words\<close>

lemma sint32_lt: "sint (x::int32) < 2147483648"
  using sint_lt [of x] by simp

lemma sint32_ge: "- 2147483648 \<le> sint (x::int32)"
  using sint_ge [of x] by simp

lemma sint_of_int32:
  "- 2147483648 \<le> k \<Longrightarrow> k < 2147483648 \<Longrightarrow> sint (word_of_int k :: int32) = k"
  by (simp add: signed_take_bit_int_eq_self sint_sbintrunc')

lemma sint_sub32:
  "- 2147483648 \<le> sint a - sint b \<Longrightarrow> sint a - sint b < 2147483648 \<Longrightarrow>
     sint (a - b :: int32) = sint a - sint b"
  by (simp add: sint_word_ariths signed_take_bit_int_eq_self)

lemma sint_add32:
  "- 2147483648 \<le> sint a + sint b \<Longrightarrow> sint a + sint b < 2147483648 \<Longrightarrow>
     sint (a + b :: int32) = sint a + sint b"
  by (simp add: sint_word_ariths signed_take_bit_int_eq_self)

lemma sint_mult32:
  "- 2147483648 \<le> sint a * sint b \<Longrightarrow> sint a * sint b < 2147483648 \<Longrightarrow>
     sint (a * b :: int32) = sint a * sint b"
  by (simp add: sint_word_ariths signed_take_bit_int_eq_self)

lemma sint_c_div_pos:
  assumes "0 \<le> sint a" "0 < sint b"
  shows "sint (c_div a b) = sint a div sint b"
proof -
  have "sint a sdiv sint b = sint a div sint b"
    using assms by (simp add: signed_divide_int_def sgn_if)
  moreover have "0 \<le> sint a div sint b"
    using assms by (simp add: pos_imp_zdiv_nonneg_iff)
  moreover have "sint a div sint b \<le> sint a"
    using assms zdiv_mono2 [of "sint a" 1 "sint b"] by simp
  ultimately show ?thesis
    using sint32_lt [of a] by (simp add: c_div_def sint_of_int32)
qed

lemma sint_c_rem_pos:
  assumes "0 \<le> sint a" "0 < sint b"
  shows "sint (c_rem a b) = sint a mod sint b"
proof -
  have "sint a smod sint b = sint a mod sint b"
    using assms
    by (simp add: signed_modulo_int_def sgn_if signed_divide_int_def minus_div_mult_eq_mod)
  moreover have "0 \<le> sint a mod sint b" using assms by simp
  moreover have "sint a mod sint b < sint b" using assms by simp
  ultimately show ?thesis
    using sint32_lt [of b] by (simp add: c_rem_def sint_of_int32)
qed

subsection \<open>Bounds of the drives\<close>

lemma sint_decrement:
  assumes "0 \<le> sint v" "0 \<le> sint travel"
  shows "sint (decrement v travel) = max 0 (sint v - sint travel)"
proof -
  have "sint (v - travel) = sint v - sint travel"
    using assms sint32_lt [of v] sint32_lt [of travel] by (intro sint_sub32) auto
  then show ?thesis
    by (simp add: decrement_def Let_def word_sless_alt)
qed

lemma decrement_nonneg: "0 \<le>s decrement v travel"
  by (simp add: decrement_def Let_def word_sle_eq word_sless_alt)

lemma percent_of:
  assumes "0 \<le> sint v" "sint v \<le> 60" "0 < sint m"
  shows "sint (c_div (100 * v) m) = (100 * sint v) div sint m"
proof -
  have "sint (100 * v) = sint (100 :: int32) * sint v"
    using assms by (intro sint_mult32) auto
  then have "sint (100 * v) = 100 * sint v" by simp
  with assms sint_c_div_pos [of "100 * v" m] show ?thesis by simp
qed

lemma in_bounds_initializeDrives:
  assumes "0 \<le>s r1" "0 \<le>s r2" "0 \<le>s r3" "0 \<le>s r4"
  shows "in_bounds (initializeDrives r1 r2 r3 r4)"
proof -
  have "0 \<le> sint (c_rem r m) \<and> sint (c_rem r m) \<le> sint m" if "0 \<le>s r" "0 < sint m" for r m
  proof -
    from that have "sint (c_rem r m) = sint r mod sint m"
      by (intro sint_c_rem_pos) (simp_all add: word_sle_eq)
    moreover have "0 \<le> sint r mod sint m" "sint r mod sint m < sint m"
      using that by simp_all
    ultimately show ?thesis by simp
  qed
  from this [of r1 FUN_MAX] this [of r2 HEALTH_MAX] this [of r3 HUNGER_MAX] this [of r4 SLEEP_MAX]
    assms
  show ?thesis
    by (simp add: in_bounds_def initializeDrives_def word_sle_eq
        FUN_MAX_def HEALTH_MAX_def HUNGER_MAX_def SLEEP_MAX_def)
qed

lemma in_bounds_updateState:
  assumes "in_bounds d" "0 \<le>s travel"
  shows "in_bounds (updateState d travel)"
proof -
  have "0 \<le> sint (decrement v travel) \<and> sint (decrement v travel) \<le> sint m"
    if "0 \<le>s v" "v \<le>s m" for v m
    using that assms(2) sint_decrement [of v travel] by (simp add: word_sle_eq)
  from this [of "fun' d" FUN_MAX] this [of "health d" HEALTH_MAX]
    this [of "hunger d" HUNGER_MAX] this [of "sleep d" SLEEP_MAX] assms(1)
  show ?thesis
    by (simp add: in_bounds_def updateState_def word_sle_eq)
qed

lemma in_bounds_satisfyNeed: "in_bounds d \<Longrightarrow> in_bounds (satisfyNeed d c)"
  by (simp add: in_bounds_def satisfyNeed_def word_sle_eq
      FUN_MAX_def HEALTH_MAX_def HUNGER_MAX_def SLEEP_MAX_def)

lemma in_bounds_run:
  "in_bounds d \<Longrightarrow> list_all nonneg_op ops \<Longrightarrow> in_bounds (foldl apply_drive_op d ops)"
proof (induction ops arbitrary: d)
  case Nil
  then show ?case by simp
next
  case (Cons x ops)
  from Cons.prems have "in_bounds (apply_drive_op d x)"
    by (cases x) (simp_all add: in_bounds_updateState in_bounds_satisfyNeed)
  with Cons show ?case by simp
qed

subsection \<open>Properties of the drive state machine\<close>

text \<open>
  C4. For every drive state, \<^verbatim>\<open>identifyState\<close> returns the letter of the drive whose
  percentage is the least of health, hunger, sleep and fun, the earliest in that order
  among equal ones (\<open>M\<close>, \<open>F\<close>, \<open>N\<close>, \<open>W\<close>), and returns \<open>E\<close> instead when that least
  percentage is above 50.
\<close>
theorem identifyState_minimum:
  "identifyState d =
     (let p = setPercentage d;
          m = min (sint (health p)) (min (sint (hunger p)) (min (sint (sleep p)) (sint (fun' p))))
      in if 50 < m then CHR ''E''
         else if sint (health p) = m then CHR ''M''
         else if sint (hunger p) = m then CHR ''F''
         else if sint (sleep p) = m then CHR ''N''
         else CHR ''W'')"
  by (simp add: identifyState_def Let_def word_sless_alt min_def)

text \<open>
  On three states: sleep at 10 percent below health and hunger at 40 gives \<open>N\<close>; health
  and hunger both at 40 percent and nothing lower gives \<open>M\<close>, the earlier of the two; all
  four above 50 percent gives \<open>E\<close>.
\<close>

theorem identifyState_minimum_witness:
  "identifyState \<lparr>fun' = 32, health = 24, hunger = 12, sleep = 4\<rparr> = CHR ''N''
   \<and> identifyState \<lparr>fun' = 32, health = 24, hunger = 12, sleep = 20\<rparr> = CHR ''M''
   \<and> identifyState \<lparr>fun' = 21, health = 36, hunger = 18, sleep = 24\<rparr> = CHR ''E''"
  using identifyState_minimum [of "\<lparr>fun' = 32, health = 24, hunger = 12, sleep = 4\<rparr>"]
    identifyState_minimum [of "\<lparr>fun' = 32, health = 24, hunger = 12, sleep = 20\<rparr>"]
    identifyState_minimum [of "\<lparr>fun' = 21, health = 36, hunger = 18, sleep = 24\<rparr>"]
  by (simp add: setPercentage_def c_div_def signed_divide_int_def
      FUN_MAX_def HEALTH_MAX_def HUNGER_MAX_def SLEEP_MAX_def)

text \<open>
  C5. For drives that are not negative and a travel distance that is not negative,
  \<^verbatim>\<open>updateState\<close> leaves each of the four drives at the larger of 0 and its old value less
  the distance, and no drive is negative afterwards.
\<close>
theorem updateState_clamps:
  assumes "0 \<le>s fun' d" "0 \<le>s health d" "0 \<le>s hunger d" "0 \<le>s sleep d"
    and "0 \<le>s travel"
  shows "sint (fun' (updateState d travel)) = max 0 (sint (fun' d) - sint travel)
       \<and> sint (health (updateState d travel)) = max 0 (sint (health d) - sint travel)
       \<and> sint (hunger (updateState d travel)) = max 0 (sint (hunger d) - sint travel)
       \<and> sint (sleep (updateState d travel)) = max 0 (sint (sleep d) - sint travel)
       \<and> 0 \<le>s fun' (updateState d travel) \<and> 0 \<le>s health (updateState d travel)
       \<and> 0 \<le>s hunger (updateState d travel) \<and> 0 \<le>s sleep (updateState d travel)"
  using assms by (simp add: updateState_def sint_decrement decrement_nonneg word_sle_eq)

theorem updateState_clamps_witness:
  "0 \<le>s (10::int32) \<and> 0 \<le>s (50::int32) \<and> 0 \<le>s (5::int32) \<and> 0 \<le>s (20::int32)
   \<and> 0 \<le>s (7::int32)
   \<and> sint (fun' (updateState \<lparr>fun' = 10, health = 50, hunger = 5, sleep = 20\<rparr> 7)) = 3
   \<and> sint (hunger (updateState \<lparr>fun' = 10, health = 50, hunger = 5, sleep = 20\<rparr> 7)) = 0"
  using updateState_clamps [of "\<lparr>fun' = 10, health = 50, hunger = 5, sleep = 20\<rparr>" 7]
  by (simp add: word_sle_eq)

text \<open>
  C6. \<^verbatim>\<open>satisfyNeed\<close> sets hunger to 30 at \<open>F\<close>, health to 60 at \<open>M\<close>, sleep to 40 at
  \<open>N\<close> and fun to 35 at \<open>W\<close>, changes no other drive, and returns the state as it was
  at every other letter.
\<close>
theorem satisfyNeed_frame:
  "hunger (satisfyNeed d c) = (if c = CHR ''F'' then 30 else hunger d)
   \<and> health (satisfyNeed d c) = (if c = CHR ''M'' then 60 else health d)
   \<and> sleep (satisfyNeed d c) = (if c = CHR ''N'' then 40 else sleep d)
   \<and> fun' (satisfyNeed d c) = (if c = CHR ''W'' then 35 else fun' d)
   \<and> (c \<notin> {CHR ''F'', CHR ''M'', CHR ''N'', CHR ''W''} \<longrightarrow> satisfyNeed d c = d)"
  by (simp add: satisfyNeed_def FUN_MAX_def HEALTH_MAX_def HUNGER_MAX_def SLEEP_MAX_def)

theorem satisfyNeed_frame_witness:
  "CHR ''E'' \<notin> {CHR ''F'', CHR ''M'', CHR ''N'', CHR ''W''}
   \<and> satisfyNeed \<lparr>fun' = 10, health = 50, hunger = 5, sleep = 20\<rparr> (CHR ''E'')
       = \<lparr>fun' = 10, health = 50, hunger = 5, sleep = 20\<rparr>
   \<and> hunger (satisfyNeed \<lparr>fun' = 10, health = 50, hunger = 5, sleep = 20\<rparr> (CHR ''F'')) = 30"
  using satisfyNeed_frame [of "\<lparr>fun' = 10, health = 50, hunger = 5, sleep = 20\<rparr>" "CHR ''E''"]
    satisfyNeed_frame [of "\<lparr>fun' = 10, health = 50, hunger = 5, sleep = 20\<rparr>" "CHR ''F''"]
  by simp

text \<open>
  C8. For drives within their bounds, each percentage computed by \<^verbatim>\<open>setPercentage\<close> is
  100 times the drive divided by its maximum and rounded down, which on these values is
  the truncating division of the code.
\<close>
theorem setPercentage_floor:
  assumes "in_bounds d"
  shows "sint (fun' (setPercentage d)) = (100 * sint (fun' d)) div 35
       \<and> sint (health (setPercentage d)) = (100 * sint (health d)) div 60
       \<and> sint (hunger (setPercentage d)) = (100 * sint (hunger d)) div 30
       \<and> sint (sleep (setPercentage d)) = (100 * sint (sleep d)) div 40"
  using assms percent_of [of "fun' d" FUN_MAX] percent_of [of "health d" HEALTH_MAX]
    percent_of [of "hunger d" HUNGER_MAX] percent_of [of "sleep d" SLEEP_MAX]
  by (simp add: in_bounds_def setPercentage_def word_sle_eq
      FUN_MAX_def HEALTH_MAX_def HUNGER_MAX_def SLEEP_MAX_def)

theorem setPercentage_floor_witness:
  "in_bounds \<lparr>fun' = 10, health = 50, hunger = 5, sleep = 20\<rparr>
   \<and> sint (fun' (setPercentage \<lparr>fun' = 10, health = 50, hunger = 5, sleep = 20\<rparr>)) = 28
   \<and> sint (health (setPercentage \<lparr>fun' = 10, health = 50, hunger = 5, sleep = 20\<rparr>)) = 83
   \<and> sint (hunger (setPercentage \<lparr>fun' = 10, health = 50, hunger = 5, sleep = 20\<rparr>)) = 16
   \<and> sint (sleep (setPercentage \<lparr>fun' = 10, health = 50, hunger = 5, sleep = 20\<rparr>)) = 50"
proof -
  have b: "in_bounds \<lparr>fun' = 10, health = 50, hunger = 5, sleep = 20\<rparr>"
    by (simp add: in_bounds_def word_sle_eq
        FUN_MAX_def HEALTH_MAX_def HUNGER_MAX_def SLEEP_MAX_def)
  from setPercentage_floor [OF b] b show ?thesis by simp
qed

text \<open>
  C9. \<^verbatim>\<open>nodeToNumber\<close> and \<^verbatim>\<open>numberToNode\<close> are inverse to each other between the seven
  node letters and the indices 0 to 6.
\<close>
theorem node_numbering_inverse:
  "(c \<in> set node_letters \<longrightarrow>
      (\<exists>n. nodeToNumber c = Inr n \<and> n \<le> 6 \<and> numberToNode n = Inr c))
   \<and> (n \<le> 6 \<longrightarrow>
      (\<exists>c. numberToNode n = Inr c \<and> c \<in> set node_letters \<and> nodeToNumber c = Inr n))"
  by (auto simp: node_letters_def nodeToNumber_def numberToNode_def)

theorem node_numbering_inverse_witness:
  "CHR ''W'' \<in> set node_letters \<and> (4::nat) \<le> 6
   \<and> nodeToNumber (CHR ''W'') = Inr 4 \<and> numberToNode 4 = Inr (CHR ''W'')"
  using node_numbering_inverse [of "CHR ''W''" 4]
  by (simp add: node_letters_def nodeToNumber_def numberToNode_def)

text \<open>
  C10. From the state \<^verbatim>\<open>initializeDrives\<close> builds out of four results of \<^verbatim>\<open>rand()\<close>, after
  any number of steps \<open>k\<close> of any history of decays by distances that are not negative
  and of arrivals, every drive is within its bounds.
\<close>
theorem drives_stay_in_bounds:
  assumes "0 \<le>s r1" "0 \<le>s r2" "0 \<le>s r3" "0 \<le>s r4"
    and "list_all nonneg_op ops"
  shows "in_bounds (run_drive_ops (initializeDrives r1 r2 r3 r4) (take k ops))"
proof -
  have "list_all nonneg_op (take k ops)"
    using assms(5) by (auto simp: list_all_iff dest: in_set_takeD)
  with in_bounds_initializeDrives [OF assms(1-4)] show ?thesis
    unfolding run_drive_ops_def by (rule in_bounds_run)
qed

theorem drives_stay_in_bounds_witness:
  "0 \<le>s (1000::int32) \<and> 0 \<le>s (2000::int32) \<and> 0 \<le>s (3000::int32) \<and> 0 \<le>s (4000::int32)
   \<and> list_all nonneg_op [Decay 7, Arrive (CHR ''F''), Decay 12, Arrive (CHR ''N'')]
   \<and> in_bounds (run_drive_ops (initializeDrives 1000 2000 3000 4000)
        (take 3 [Decay 7, Arrive (CHR ''F''), Decay 12, Arrive (CHR ''N'')]))"
  using drives_stay_in_bounds [of 1000 2000 3000 4000
      "[Decay 7, Arrive (CHR ''F''), Decay 12, Arrive (CHR ''N'')]" 3]
  by (simp add: word_sle_eq)

subsection \<open>Loading the graph\<close>

declare show_nat.simps [simp del]

lemma decimal_snoc: "decimal (ds @ [c]) = 10 * decimal ds + digit_value c"
  by (simp add: decimal_def)

lemma digit_cases:
  "d < (10::nat) \<Longrightarrow>
     d = 0 \<or> d = 1 \<or> d = 2 \<or> d = 3 \<or> d = 4 \<or> d = 5 \<or> d = 6 \<or> d = 7 \<or> d = 8 \<or> d = 9"
  by arith

lemma digit_char_value: "d < 10 \<Longrightarrow> digit_value (digit_char d) = int d"
  using digit_cases [of d] by (auto simp: digit_value_def digit_char_def)

lemma digit_char_isdigit: "d < 10 \<Longrightarrow> isdigit (digit_char d)"
  using digit_cases [of d] by (auto simp: isdigit_def digit_char_def)

lemma show_nat_digits: "list_all isdigit (show_nat n)"
proof (induction n rule: show_nat.induct)
  case (1 n)
  show ?case
  proof (cases "n < 10")
    case True
    then show ?thesis by (simp add: show_nat.simps [of n] digit_char_isdigit)
  next
    case False
    with "1.IH" show ?thesis by (simp add: show_nat.simps [of n] digit_char_isdigit)
  qed
qed

lemma show_nat_not_Nil: "show_nat n \<noteq> []"
  by (simp add: show_nat.simps [of n])

lemma decimal_show_nat: "decimal (show_nat n) = int n"
proof (induction n rule: show_nat.induct)
  case (1 n)
  show ?case
  proof (cases "n < 10")
    case True
    then show ?thesis
      by (simp add: show_nat.simps [of n] decimal_def digit_char_value)
  next
    case False
    with "1.IH" have "decimal (show_nat (n div 10)) = int (n div 10)" by simp
    moreover have "10 * int (n div 10) + int (n mod 10) = int n" by presburger
    ultimately show ?thesis
      using False by (simp add: show_nat.simps [of n] decimal_snoc digit_char_value)
  qed
qed

lemma isdigit_not_space: "isdigit c \<Longrightarrow> \<not> isspace c"
  by (auto simp: isdigit_def isspace_def)

lemma isdigit_not_sign: "isdigit c \<Longrightarrow> c \<noteq> CHR ''-'' \<and> c \<noteq> CHR ''+''"
  by (auto simp: isdigit_def)

lemma skip_space:
  "list_all isspace pre \<Longrightarrow> \<not> isspace c \<Longrightarrow> dropWhile isspace (pre @ c # rest) = c # rest"
  by (induction pre) auto

lemma take_digits:
  "list_all isdigit ds \<Longrightarrow> \<not> isdigit c \<Longrightarrow> takeWhile isdigit (ds @ c # rest) = ds"
  by (induction ds) auto

lemma drop_digits:
  "list_all isdigit ds \<Longrightarrow> \<not> isdigit c \<Longrightarrow> dropWhile isdigit (ds @ c # rest) = c # rest"
  by (induction ds) auto

lemma sint32_bounds: "- 2147483648 \<le> sint (w :: int32) \<and> sint w \<le> 2147483647"
  using sint32_lt [of w] sint32_ge [of w] by simp

lemma extract_int_show:
  assumes "list_all isspace pre"
  shows "extract_int \<lparr>buffer = pre @ show_int w @ CHR 0x0A # rest, failbit = False\<rparr> t =
           (\<lparr>buffer = CHR 0x0A # rest, failbit = False\<rparr>, w)"
proof -
  have nl: "\<not> isdigit (CHR 0x0A)" by (simp add: isdigit_def)
  show ?thesis
  proof (cases "sint w < 0")
    case True
    define n where "n = nat (- sint w)"
    have sh: "show_int w = CHR ''-'' # show_nat n" using True by (simp add: show_int_def n_def)
    have r: "dropWhile isspace (pre @ show_int w @ CHR 0x0A # rest) =
             CHR ''-'' # show_nat n @ CHR 0x0A # rest"
      unfolding sh using skip_space [OF assms, of "CHR ''-''"] by (simp add: isspace_def)
    have v: "- decimal (show_nat n) = sint w" using True by (simp add: decimal_show_nat n_def)
    show ?thesis
      using sint32_bounds [of w]
      by (simp add: extract_int_def r Let_def take_digits drop_digits show_nat_digits nl
          show_nat_not_Nil v)
  next
    case False
    define n where "n = nat (sint w)"
    have sh: "show_int w = show_nat n" using False by (simp add: show_int_def n_def)
    obtain c ds where cds: "show_nat n = c # ds"
      using show_nat_not_Nil [of n] by (cases "show_nat n") auto
    have dc: "isdigit c" using show_nat_digits [of n] cds by simp
    have r: "dropWhile isspace (pre @ show_int w @ CHR 0x0A # rest) =
             show_nat n @ CHR 0x0A # rest"
      unfolding sh cds using skip_space [OF assms isdigit_not_space [OF dc]] by simp
    have hd: "hd (show_nat n @ CHR 0x0A # rest) = c" by (simp add: cds)
    have v: "decimal (show_nat n) = sint w" using False by (simp add: decimal_show_nat n_def)
    have ne: "show_nat n @ CHR 0x0A # rest \<noteq> []" by simp
    show ?thesis
      using sint32_bounds [of w] isdigit_not_sign [OF dc]
      by (simp add: extract_int_def r Let_def hd take_digits drop_digits show_nat_digits nl
          show_nat_not_Nil v)
  qed
qed

lemma extract_char_next:
  assumes "list_all isspace pre" "\<not> isspace c"
  shows "extract_char \<lparr>buffer = pre @ c # rest, failbit = False\<rparr> t =
           (\<lparr>buffer = rest, failbit = False\<rparr>, c)"
  using skip_space [OF assms] by (simp add: extract_char_def)

lemma read_entry_show:
  assumes "list_all isspace pre" "\<not> isspace a" "\<not> isspace b"
  shows "read_entry \<lparr>buffer = pre @ show_triple (a, b, w) @ rest, failbit = False\<rparr> e =
           (\<lparr>buffer = CHR 0x0A # rest, failbit = False\<rparr>, triple_edge (a, b, w))"
proof -
  have sp: "list_all isspace [CHR '' '']" by (simp add: isspace_def)
  have 1: "extract_char \<lparr>buffer = pre @ a # CHR '' '' # b # CHR '' '' # show_int w @ CHR 0x0A # rest,
              failbit = False\<rparr> (initial e) =
           (\<lparr>buffer = CHR '' '' # b # CHR '' '' # show_int w @ CHR 0x0A # rest, failbit = False\<rparr>, a)"
    by (rule extract_char_next [OF assms(1,2)])
  have 2: "extract_char \<lparr>buffer = CHR '' '' # b # CHR '' '' # show_int w @ CHR 0x0A # rest,
              failbit = False\<rparr> (terminal e) =
           (\<lparr>buffer = CHR '' '' # show_int w @ CHR 0x0A # rest, failbit = False\<rparr>, b)"
    using extract_char_next [OF sp assms(3)] by simp
  have 3: "extract_int \<lparr>buffer = CHR '' '' # show_int w @ CHR 0x0A # rest, failbit = False\<rparr>
              (weight e) = (\<lparr>buffer = CHR 0x0A # rest, failbit = False\<rparr>, w)"
    using extract_int_show [OF sp] by simp
  show ?thesis
    by (simp add: read_entry_def show_triple_def triple_edge_def 1 2 3)
qed

lemma read_entry_skip:
  assumes "list_all isspace pre"
  shows "read_entry \<lparr>buffer = pre @ buf, failbit = False\<rparr> e =
         read_entry \<lparr>buffer = buf, failbit = False\<rparr> e"
proof -
  have "dropWhile isspace (pre @ buf) = dropWhile isspace buf"
    using assms by (induction pre) auto
  then have "extract_char \<lparr>buffer = pre @ buf, failbit = False\<rparr> t =
             extract_char \<lparr>buffer = buf, failbit = False\<rparr> t" for t
    by (simp add: extract_char_def)
  then show ?thesis by (simp add: read_entry_def)
qed

lemma read_graph_skip:
  assumes "list_all isspace pre"
  shows "read_graph \<lparr>buffer = pre @ buf, failbit = False\<rparr> es =
         read_graph \<lparr>buffer = buf, failbit = False\<rparr> es"
  by (cases es) (simp_all add: read_entry_skip [OF assms])

lemma read_entry_failed: "failbit s \<Longrightarrow> read_entry s e = (s, e)"
  by (simp add: read_entry_def extract_char_def extract_int_def)

lemma read_graph_failed: "failbit s \<Longrightarrow> read_graph s es = es"
  by (induction es) (simp_all add: read_entry_failed)

lemma read_graph_fails:
  "failbit (fst (read_entry s e)) \<Longrightarrow> read_graph s (e # es) = snd (read_entry s e) # es"
  by (cases "read_entry s e") (simp add: read_graph_failed)

lemma read_graph_blank:
  assumes "list_all isspace buf"
  shows "read_graph \<lparr>buffer = buf, failbit = False\<rparr> es = es"
proof (cases es)
  case Nil
  then show ?thesis by simp
next
  case (Cons e es')
  have dw: "dropWhile isspace buf = []" using assms by (induction buf) auto
  have "read_entry \<lparr>buffer = buf, failbit = False\<rparr> e = (\<lparr>buffer = [], failbit = True\<rparr>, e)"
    by (simp add: read_entry_def extract_char_def extract_int_def dw)
  with Cons show ?thesis by (simp add: read_graph_failed)
qed

lemma read_graph_render:
  "plain_triples ts \<Longrightarrow> length ts \<le> length es \<Longrightarrow>
     read_graph \<lparr>buffer = render ts @ rest, failbit = False\<rparr> es =
       map triple_edge ts @ read_graph \<lparr>buffer = rest, failbit = False\<rparr> (drop (length ts) es)"
proof (induction ts arbitrary: es)
  case Nil
  then show ?case by (simp add: render_def)
next
  case (Cons t ts)
  obtain a b w where t: "t = (a, b, w)" by (cases t) auto
  from Cons.prems(2) obtain e es' where es: "es = e # es'" by (cases es) auto
  from Cons.prems(1) t have ab: "\<not> isspace a" "\<not> isspace b" and pl: "plain_triples ts"
    by (simp_all add: plain_triples_def)
  have nl: "list_all isspace [CHR 0x0A]" by (simp add: isspace_def)
  have "read_entry \<lparr>buffer = [] @ show_triple (a, b, w) @ render ts @ rest, failbit = False\<rparr> e =
          (\<lparr>buffer = CHR 0x0A # render ts @ rest, failbit = False\<rparr>, triple_edge (a, b, w))"
    by (rule read_entry_show [OF _ ab]) simp
  moreover have "read_graph \<lparr>buffer = [CHR 0x0A] @ render ts @ rest, failbit = False\<rparr> es' =
                 read_graph \<lparr>buffer = render ts @ rest, failbit = False\<rparr> es'"
    by (rule read_graph_skip [OF nl])
  moreover have "read_graph \<lparr>buffer = render ts @ rest, failbit = False\<rparr> es' =
       map triple_edge ts @ read_graph \<lparr>buffer = rest, failbit = False\<rparr> (drop (length ts) es')"
    using Cons.IH [OF pl, of es'] Cons.prems(2) es by simp
  ultimately show ?case
    by (simp add: es t render_def)
qed

lemma read_graph_length: "length (read_graph s es) = length es"
  by (induction es arbitrary: s) (auto split: prod.splits)

lemmas stream_eval = loadGraph_def read_entry_def extract_char_def extract_int_def isspace_def
  isdigit_def decimal_def digit_value_def Let_def

text \<open>
  Two sources that break off inside the fourth triple. After \<open>A F\<close> the input ends: the
  letters are stored and the weight keeps its old value. After \<open>N A\<close> comes \<open>x\<close>: the letters
  are stored and the weight becomes 0. The fifth entry is not touched in either.
\<close>

lemma loadGraph_partial_triple:
  "loadGraph (Some ''E A 1 A E 1 A N 2 A F'') (take 5 stale_array) =
     (True, take 3 maze @ [edge (CHR ''A'') (CHR ''F'') (- 1), edge (CHR ''?'') (CHR ''?'') (- 1)])"
  by (simp add: stream_eval stale_array_def VERTEX_COUNT_def maze_def edge_def eval_nat_numeral)

lemma loadGraph_malformed_weight:
  "loadGraph (Some ''E A 1 A E 1 A N 2 N A x'') (take 5 stale_array) =
     (True, take 3 maze @ [edge (CHR ''N'') (CHR ''A'') 0, edge (CHR ''?'') (CHR ''?'') (- 1)])"
  by (simp add: stream_eval stale_array_def VERTEX_COUNT_def maze_def edge_def eval_nat_numeral)

text \<open>
  C3, as stated, fails: \<open>short_file\<close> opens and holds 17 well-formed triples, and
  \<^verbatim>\<open>loadGraph\<close> returns \<open>true\<close>, with 17 entries read and the last one as it was.
\<close>

theorem loadGraph_17_counterexample:
  "loadGraph (Some short_file) stale_array =
     (True, take 17 maze @ [edge (CHR ''?'') (CHR ''?'') (- 1)])"
  by (simp add: short_file_def stream_eval stale_array_def VERTEX_COUNT_def maze_def edge_def
      eval_nat_numeral)

text \<open>
  C3, amended. \<^verbatim>\<open>loadGraph\<close> returns \<open>false\<close>, and leaves the array alone, only when the
  source cannot be opened. For a source that opens and starts with \<open>k\<close> well-formed
  triples, \<open>k\<close> below 18, whatever follows them, it returns \<open>true\<close> with an array of 18
  entries whose first \<open>k\<close> are the triples. If only white space follows, the other
  entries keep their old content. If an extraction into entry \<open>k\<close> fails on what follows,
  the entries after \<open>k\<close> keep their old content; entry \<open>k\<close> itself may be overwritten in
  part.
\<close>

theorem loadGraph_short_source:
  assumes "length ts < VERTEX_COUNT" and "length baseGraph = VERTEX_COUNT"
    and "plain_triples ts"
  shows "loadGraph None baseGraph = (False, baseGraph)
       \<and> fst (loadGraph (Some (render ts @ rest)) baseGraph)
       \<and> length (snd (loadGraph (Some (render ts @ rest)) baseGraph)) = VERTEX_COUNT
       \<and> take (length ts) (snd (loadGraph (Some (render ts @ rest)) baseGraph)) =
           map triple_edge ts
       \<and> (list_all isspace rest \<longrightarrow>
            drop (length ts) (snd (loadGraph (Some (render ts @ rest)) baseGraph)) =
              drop (length ts) baseGraph)
       \<and> (failbit (fst (read_entry \<lparr>buffer = rest, failbit = False\<rparr> (baseGraph ! length ts))) \<longrightarrow>
            drop (Suc (length ts)) (snd (loadGraph (Some (render ts @ rest)) baseGraph)) =
              drop (Suc (length ts)) baseGraph)"
proof -
  let ?k = "length ts"
  let ?tail = "read_graph \<lparr>buffer = rest, failbit = False\<rparr> (drop ?k baseGraph)"
  have res: "snd (loadGraph (Some (render ts @ rest)) baseGraph) = map triple_edge ts @ ?tail"
    using assms by (simp add: loadGraph_def read_graph_render)
  have blank: "?tail = drop ?k baseGraph" if "list_all isspace rest"
    using that by (rule read_graph_blank)
  have cut: "drop ?k baseGraph = baseGraph ! ?k # drop (Suc ?k) baseGraph"
    using assms(1,2) by (simp add: Cons_nth_drop_Suc)
  have fails: "drop (Suc ?k) (map triple_edge ts @ ?tail) = drop (Suc ?k) baseGraph"
    if "failbit (fst (read_entry \<lparr>buffer = rest, failbit = False\<rparr> (baseGraph ! ?k)))"
    using read_graph_fails [OF that] by (simp add: cut)
  show ?thesis
    unfolding res using blank fails assms(1,2)
    by (simp add: loadGraph_def read_graph_length)
qed

theorem loadGraph_short_source_witness:
  "length [(CHR ''E'', CHR ''A'', 1 :: int32), (CHR ''A'', CHR ''E'', 1), (CHR ''A'', CHR ''N'', 2)]
     < VERTEX_COUNT
   \<and> length stale_array = VERTEX_COUNT
   \<and> plain_triples [(CHR ''E'', CHR ''A'', 1), (CHR ''A'', CHR ''E'', 1), (CHR ''A'', CHR ''N'', 2)]
   \<and> render [(CHR ''E'', CHR ''A'', 1), (CHR ''A'', CHR ''E'', 1), (CHR ''A'', CHR ''N'', 2)] =
       ''E A 1\<newline>A E 1\<newline>A N 2\<newline>''
   \<and> failbit (fst (read_entry \<lparr>buffer = ''A F'', failbit = False\<rparr> (stale_array ! 3)))
   \<and> fst (loadGraph (Some (''E A 1\<newline>A E 1\<newline>A N 2\<newline>'' @ ''A F'')) stale_array)
   \<and> take 3 (snd (loadGraph (Some (''E A 1\<newline>A E 1\<newline>A N 2\<newline>'' @ ''A F'')) stale_array)) =
       take 3 maze
   \<and> snd (loadGraph (Some (''E A 1\<newline>A E 1\<newline>A N 2\<newline>'' @ ''A F'')) stale_array) ! 3 =
       edge (CHR ''A'') (CHR ''F'') (- 1)
   \<and> drop 4 (snd (loadGraph (Some (''E A 1\<newline>A E 1\<newline>A N 2\<newline>'' @ ''A F'')) stale_array)) =
       drop 4 stale_array
   \<and> list_all isspace []
   \<and> drop 3 (snd (loadGraph (Some ''E A 1\<newline>A E 1\<newline>A N 2\<newline>'') stale_array)) =
       drop 3 stale_array"
proof -
  let ?ts = "[(CHR ''E'', CHR ''A'', 1 :: int32), (CHR ''A'', CHR ''E'', 1), (CHR ''A'', CHR ''N'', 2)]"
  have l: "length ?ts = 3" by simp
  have r: "render ?ts = ''E A 1\<newline>A E 1\<newline>A N 2\<newline>''"
    by (simp add: render_def show_triple_def show_int_def show_nat.simps digit_char_def)
  have h: "length ?ts < VERTEX_COUNT" "length stale_array = VERTEX_COUNT" "plain_triples ?ts"
    by (simp_all add: stale_array_def VERTEX_COUNT_def plain_triples_def isspace_def)
  have f: "failbit (fst (read_entry \<lparr>buffer = ''A F'', failbit = False\<rparr> (stale_array ! 3)))"
    by (simp add: stream_eval)
  have e: "snd (loadGraph (Some (''E A 1\<newline>A E 1\<newline>A N 2\<newline>'' @ ''A F'')) stale_array) ! 3 =
       edge (CHR ''A'') (CHR ''F'') (- 1)"
    by (simp add: stream_eval stale_array_def VERTEX_COUNT_def edge_def eval_nat_numeral)
  have m: "map triple_edge ?ts = take 3 maze"
    by (simp add: maze_def edge_def triple_edge_def eval_nat_numeral)
  note T = loadGraph_short_source [OF h, of "''A F''", unfolded l r m]
  from T f have
    "fst (loadGraph (Some (''E A 1\<newline>A E 1\<newline>A N 2\<newline>'' @ ''A F'')) stale_array)"
    "take 3 (snd (loadGraph (Some (''E A 1\<newline>A E 1\<newline>A N 2\<newline>'' @ ''A F'')) stale_array)) =
       take 3 maze"
    "drop 4 (snd (loadGraph (Some (''E A 1\<newline>A E 1\<newline>A N 2\<newline>'' @ ''A F'')) stale_array)) =
       drop 4 stale_array"
    by simp_all
  moreover note B = loadGraph_short_source [OF h, of "[]", unfolded l r]
  from B have
    "drop 3 (snd (loadGraph (Some ''E A 1\<newline>A E 1\<newline>A N 2\<newline>'') stale_array)) =
       drop 3 stale_array"
    by simp
  ultimately show ?thesis using l r h f e by simp
qed

subsection \<open>The search from a node to itself\<close>

lemma nodeToNumber_letter:
  "c \<in> set node_letters \<Longrightarrow> \<exists>n. nodeToNumber c = Inr n \<and> n < 7"
  by (auto simp: node_letters_def nodeToNumber_def)

text \<open>
  C7. For every graph and every node letter \<open>X\<close>, \<^verbatim>\<open>findRoute\<close> from \<open>X\<close> to \<open>X\<close> returns
  the distance 0 and leaves the current location at \<open>X\<close>.
\<close>

theorem findRoute_same_node:
  assumes "X \<in> set node_letters"
  shows "findRoute g X X = Inr (0, X)"
proof -
  from nodeToNumber_letter [OF assms] obtain n where n: "nodeToNumber X = Inr n" "n < 7"
    by auto
  then have "initializeNodeWeight[n := 0] ! n = 0"
    by (simp add: initializeNodeWeight_def VERTEX_COUNT_def)
  with n show ?thesis
    by (simp add: findRoute_def)
qed

theorem findRoute_same_node_witness:
  "CHR ''W'' \<in> set node_letters \<and> findRoute maze (CHR ''W'') (CHR ''W'') = Inr (0, CHR ''W'')"
  using findRoute_same_node [of "CHR ''W''" maze] by (simp add: node_letters_def)

subsection \<open>Paths\<close>

lemma is_path_append:
  "is_path g a (p @ q) b \<longleftrightarrow> (\<exists>c. is_path g a p c \<and> is_path g c q b)"
  by (induction p arbitrary: a) auto

lemma is_path_snoc:
  "is_path g a p c \<Longrightarrow> e \<in> set g \<Longrightarrow> initial e = c \<Longrightarrow> is_path g a (p @ [e]) (terminal e)"
  by (auto simp: is_path_append)

lemma reachable_refl: "reachable g a a"
  unfolding reachable_def by (rule exI [of _ "[]"]) simp

lemma reachable_step:
  assumes "reachable g a c" "e \<in> set g" "initial e = c"
  shows "reachable g a (terminal e)"
proof -
  from assms(1) obtain p where "is_path g a p c" by (auto simp: reachable_def)
  from is_path_snoc [OF this assms(2,3)] show ?thesis by (auto simp: reachable_def)
qed

lemma closed_set_path:
  assumes "\<forall>e \<in> set g. initial e \<in> S \<longrightarrow> terminal e \<in> S"
  shows "is_path g a p b \<Longrightarrow> a \<in> S \<Longrightarrow> b \<in> S"
  using assms by (induction p arbitrary: a) auto

lemma closed_set_unreachable:
  assumes "\<forall>e \<in> set g. initial e \<in> S \<longrightarrow> terminal e \<in> S" "a \<in> S" "b \<notin> S"
  shows "\<not> reachable g a b"
  using closed_set_path [OF assms(1) _ assms(2)] assms(3) by (auto simp: reachable_def)

subsection \<open>findLeast\<close>

lemma findLeast_cases:
  "findLeast nw = Inl Unassigned_node \<or>
   (\<exists>k < length nw. nw ! k \<noteq> 0 \<and> nw ! k <s 42 \<and> findLeast nw = numberToNode k)"
proof (cases "findLeast_loop nw 0 42 None")
  case None
  then show ?thesis by (simp add: findLeast_def)
next
  case (Some k)
  from findLeast_loop_Some [OF Some] Some show ?thesis by (auto simp: findLeast_def)
qed

subsection \<open>findNeighbors\<close>

lemma findNeighbors_Inr:
  assumes "\<forall>e \<in> set es. initial e = c \<longrightarrow> terminal e \<in> set node_letters"
  shows "\<exists>nw'. findNeighbors es nw c n = Inr nw'"
  using assms
proof (induction es arbitrary: nw)
  case Nil
  then show ?case by simp
next
  case (Cons e es)
  show ?case
  proof (cases "c = initial e")
    case False
    with Cons show ?thesis by simp
  next
    case True
    with Cons.prems have "terminal e \<in> set node_letters" by simp
    from nodeToNumber_letter [OF this] obtain m where "nodeToNumber (terminal e) = Inr m" by auto
    with True Cons show ?thesis by simp
  qed
qed

lemma findNeighbors_changed_from:
  "findNeighbors es nw c n = Inr nw' \<Longrightarrow> k < length nw \<Longrightarrow> nw' ! k \<noteq> nw ! k \<Longrightarrow>
     \<exists>e \<in> set es. initial e = c \<and> nodeToNumber (terminal e) = Inr k"
proof (induction es arbitrary: nw)
  case Nil
  then show ?case by simp
next
  case (Cons e es)
  show ?case
  proof (cases "c = initial e")
    case False
    with Cons show ?thesis by auto
  next
    case True
    with Cons.prems(1) obtain m where m: "nodeToNumber (terminal e) = Inr m"
      by (auto split: sum.splits)
    let ?nw1 = "if weight e + nw ! n <s nw ! m then nw[m := weight e + nw ! n] else nw"
    from Cons.prems(1) True m have r: "findNeighbors es ?nw1 c n = Inr nw'" by simp
    have len: "k < length ?nw1" using Cons.prems(2) by simp
    show ?thesis
    proof (cases "nw' ! k = ?nw1 ! k")
      case False
      from Cons.IH [OF r len False] show ?thesis by auto
    next
      case eq: True
      with Cons.prems(3) have "?nw1 ! k \<noteq> nw ! k" by simp
      then have "k = m" by (cases "k = m") (auto split: if_splits)
      with m True show ?thesis by auto
    qed
  qed
qed

subsection \<open>The search for a node that cannot be reached\<close>

lemma unreached_step:
  assumes inv: "unreached_inv g0 src g nw c n" and valid: "valid_graph g0"
  shows "route_step g nw c n = Inl Unassigned_node \<or>
         (\<exists>g' nw' c' n'. route_step g nw c n = Inr (g', nw', c', n') \<and>
            unreached_inv g0 src g' nw' c' n')"
proof -
  from inv have cn: "nodeToNumber c = Inr n" and rc: "reachable g0 src c"
    and len: "length nw = 9"
    and old: "\<And>k. k < 9 \<Longrightarrow> nw ! k \<noteq> 42 \<Longrightarrow> \<exists>b. numberToNode k = Inr b \<and> reachable g0 src b"
    and edges: "\<And>e. e \<in> set g \<Longrightarrow> e \<in> set g0 \<or> initial e = CHR ''Z''"
    by (auto simp: unreached_inv_def)
  from cn have cZ: "c \<noteq> CHR ''Z''" by (rule nodeToNumber_not_Z)
  from cn have n7: "n < 7" using nodeToNumber_inverse by blast
  have from_c: "e \<in> set g0" if "e \<in> set g" "initial e = c" for e
    using edges [OF that(1)] that(2) cZ by auto
  have "\<forall>e \<in> set g. initial e = c \<longrightarrow> terminal e \<in> set node_letters"
    using from_c valid by (auto simp: valid_graph_def list_all_iff)
  from findNeighbors_Inr [OF this] obtain nw1 where fn: "findNeighbors g nw c n = Inr nw1"
    by blast
  have len1: "length nw1 = 9" using findNeighbors_length [OF fn] len by simp
  define nw' where "nw' = nw1[n := 0]"
  define g' where "g' = removeVertex g c"
  have len': "length nw' = 9" using len1 by (simp add: nw'_def)
  have new: "\<exists>b. numberToNode k = Inr b \<and> reachable g0 src b" if k: "k < 9" "nw' ! k \<noteq> 42" for k
  proof (cases "k = n")
    case True
    with cn rc nodeToNumber_inverse [OF cn] show ?thesis by auto
  next
    case False
    with k have k1: "nw1 ! k \<noteq> 42" by (simp add: nw'_def)
    show ?thesis
    proof (cases "nw1 ! k = nw ! k")
      case True
      with k1 old [OF k(1)] show ?thesis by simp
    next
      case False
      from findNeighbors_changed_from [OF fn _ False] k(1) len
      obtain e where e: "e \<in> set g" "initial e = c" "nodeToNumber (terminal e) = Inr k" by auto
      from from_c [OF e(1,2)] have "e \<in> set g0" .
      from reachable_step [OF rc this e(2)] nodeToNumber_inverse [OF e(3)] show ?thesis by auto
    qed
  qed
  have edges': "e \<in> set g0 \<or> initial e = CHR ''Z''" if "e \<in> set g'" for e
    using that edges by (auto simp: g'_def removeVertex_def split: if_splits)
  have step: "route_step g nw c n =
      (case findLeast nw' of Inl f \<Rightarrow> Inl f
       | Inr c' \<Rightarrow> (case nodeToNumber c' of Inl f \<Rightarrow> Inl f
                    | Inr n' \<Rightarrow> Inr (g', nw', c', n')))"
    unfolding nw'_def g'_def using fn by (simp add: route_step_def Let_def)
  from findLeast_cases [of nw'] show ?thesis
  proof
    assume "findLeast nw' = Inl Unassigned_node"
    with step show ?thesis by simp
  next
    assume "\<exists>k<length nw'. nw' ! k \<noteq> 0 \<and> nw' ! k <s 42 \<and> findLeast nw' = numberToNode k"
    then obtain k where k: "k < 9" "nw' ! k <s 42" "findLeast nw' = numberToNode k"
      using len' by auto
    from k(2) have "nw' ! k \<noteq> 42" by auto
    from new [OF k(1) this] obtain b where b: "numberToNode k = Inr b" "reachable g0 src b"
      by auto
    from numberToNode_inverse [OF b(1)] have bk: "nodeToNumber b = Inr k" by simp
    have "unreached_inv g0 src g' nw' b k"
      using bk b(2) len' new edges' by (auto simp: unreached_inv_def)
    moreover have "route_step g nw c n = Inr (g', nw', b, k)"
      using step k(3) b(1) bk by simp
    ultimately show ?thesis by blast
  qed
qed

lemma unreached_loop:
  assumes "valid_graph g0"
  shows "unreached_inv g0 src g nw c n \<Longrightarrow> \<not> reachable g0 src t \<Longrightarrow>
           route_loop t g nw c n = Inl Unassigned_node"
proof (induction t g nw c n rule: route_loop.induct)
  case (1 t g nw c n)
  from "1.prems" have ne: "c \<noteq> t" by (auto simp: unreached_inv_def)
  from unreached_step [OF "1.prems"(1) assms] show ?case
  proof
    assume "route_step g nw c n = Inl Unassigned_node"
    with ne show ?thesis by simp
  next
    assume "\<exists>g' nw' c' n'. route_step g nw c n = Inr (g', nw', c', n') \<and>
      unreached_inv g0 src g' nw' c' n'"
    then obtain g' nw' c' n' where
      s: "route_step g nw c n = Inr (g', nw', c', n')" and i: "unreached_inv g0 src g' nw' c' n'"
      by blast
    from "1.IH" [OF ne s refl refl refl i "1.prems"(2)]
    have "route_loop t g' nw' c' n' = Inl Unassigned_node" .
    with ne s show ?thesis by simp
  qed
qed

lemma unreached_init:
  assumes "nodeToNumber src = Inr n"
  shows "unreached_inv g0 src g0 (initializeNodeWeight[n := 0]) src n"
proof -
  from nodeToNumber_inverse [OF assms] have n: "numberToNode n = Inr src" "n < 7" by auto
  have "\<exists>b. numberToNode k = Inr b \<and> reachable g0 src b"
    if "k < 9" "initializeNodeWeight[n := 0] ! k \<noteq> 42" for k
  proof -
    from that have "k = n"
      by (cases "k = n")
        (auto simp: initializeNodeWeight_def VERTEX_COUNT_def INFINITY_APPROX_def)
    with n show ?thesis by (auto simp: reachable_refl)
  qed
  with assms show ?thesis
    by (simp add: unreached_inv_def reachable_refl initializeNodeWeight_def VERTEX_COUNT_def)
qed

text \<open>
  C2 fails on the code. In \<open>maze_cut\<close> no path leads from \<open>E\<close> to \<open>M\<close>. The search from
  \<open>E\<close> to \<open>M\<close> reports nothing: it visits the six other nodes, and then no entry passes
  the test in the loop of \<^verbatim>\<open>findLeast\<close>, which hands its variable \<^verbatim>\<open>node\<close>, never assigned,
  to \<^verbatim>\<open>numberToNode\<close>. The run is followed up to that read; the C++ standard does not say
  what the program does after it.
\<close>

theorem findRoute_unreachable_run:
  "valid_graph maze_cut \<and> length maze_cut = VERTEX_COUNT
   \<and> \<not> reachable maze_cut (CHR ''E'') (CHR ''M'')
   \<and> findRoute maze_cut (CHR ''E'') (CHR ''M'') = Inl Unassigned_node"
proof -
  have "\<forall>e \<in> set maze_cut. initial e \<in> set node_letters - {CHR ''M''}
          \<longrightarrow> terminal e \<in> set node_letters - {CHR ''M''}"
    by (simp add: maze_cut_def maze_def edge_def node_letters_def)
  then have "\<not> reachable maze_cut (CHR ''E'') (CHR ''M'')"
    by (rule closed_set_unreachable) (simp_all add: node_letters_def)
  moreover have "findRoute maze_cut (CHR ''E'') (CHR ''M'') = Inl Unassigned_node"
    by code_simp
  moreover have "valid_graph maze_cut" "length maze_cut = VERTEX_COUNT"
    by (simp_all add: valid_graph_def maze_cut_def maze_def edge_def node_letters_def VERTEX_COUNT_def)
  ultimately show ?thesis by simp
qed

text \<open>
  The same on every input of that kind. For every graph whose edges join node
  letters, every node letter \<open>src\<close> and every \<open>t\<close> that no path from \<open>src\<close> reaches, the run
  of \<^verbatim>\<open>findRoute\<close> comes, after finitely many passes of its loop and before any return, to
  the call of \<^verbatim>\<open>findLeast\<close> in which no entry passes the test and the unassigned \<^verbatim>\<open>node\<close>
  is read.
\<close>

theorem findRoute_unreachable:
  assumes "valid_graph g" and "src \<in> set node_letters" and "\<not> reachable g src t"
  shows "findRoute g src t = Inl Unassigned_node"
proof -
  from nodeToNumber_letter [OF assms(2)] obtain n where n: "nodeToNumber src = Inr n" by auto
  from unreached_loop [OF assms(1) unreached_init [OF n] assms(3)] n show ?thesis
    by (simp add: findRoute_def)
qed

theorem findRoute_unreachable_witness:
  "valid_graph maze_cut \<and> CHR ''E'' \<in> set node_letters
   \<and> \<not> reachable maze_cut (CHR ''E'') (CHR ''M'')
   \<and> findRoute maze_cut (CHR ''E'') (CHR ''M'') = Inl Unassigned_node"
proof -
  have "\<forall>e \<in> set maze_cut. initial e \<in> set node_letters - {CHR ''M''}
          \<longrightarrow> terminal e \<in> set node_letters - {CHR ''M''}"
    by (simp add: maze_cut_def maze_def edge_def node_letters_def)
  then have u: "\<not> reachable maze_cut (CHR ''E'') (CHR ''M'')"
    by (rule closed_set_unreachable) (simp_all add: node_letters_def)
  have v: "valid_graph maze_cut"
    by (simp add: valid_graph_def maze_cut_def maze_def edge_def node_letters_def)
  have s: "CHR ''E'' \<in> set node_letters" by (simp add: node_letters_def)
  from findRoute_unreachable [OF v s u] u v s show ?thesis by simp
qed

subsection \<open>Costs of paths\<close>

lemma cost_Nil [simp]: "cost [] = 0"
  by (simp add: cost_def)

lemma cost_Cons [simp]: "cost (e # p) = sint (weight e) + cost p"
  by (simp add: cost_def)

lemma cost_append [simp]: "cost (p @ q) = cost p + cost q"
  by (simp add: cost_def)

lemma is_path_edges: "is_path g a p b \<Longrightarrow> set p \<subseteq> set g"
  by (induction p arbitrary: a) auto

lemma cost_nonneg:
  assumes "\<forall>e \<in> set g. 0 \<le> sint (weight e)" "set p \<subseteq> set g"
  shows "0 \<le> cost p"
  using assms(2)
proof (induction p)
  case Nil
  then show ?case by simp
next
  case (Cons e p)
  with assms(1) have "0 \<le> sint (weight e)" "0 \<le> cost p" by auto
  then show ?case by simp
qed

lemma least_cost_unique: "least_cost g a b c \<Longrightarrow> least_cost g a b c' \<Longrightarrow> c = c'"
  unfolding least_cost_def by (metis order_antisym)

lemma least_cost_self:
  assumes "\<forall>e \<in> set g. 0 \<le> sint (weight e)"
  shows "least_cost g a a 0"
proof -
  have "is_path g a [] a \<and> cost [] = 0" by simp
  moreover have "0 \<le> cost p" if "is_path g a p a" for p
    using cost_nonneg [OF assms is_path_edges [OF that]] .
  ultimately show ?thesis unfolding least_cost_def by blast
qed

lemma leave_edge:
  "is_path g a p b \<Longrightarrow> a \<in> S \<Longrightarrow> b \<notin> S \<Longrightarrow>
     \<exists>p1 e p2. p = p1 @ e # p2 \<and> is_path g a p1 (initial e) \<and> e \<in> set g \<and>
        initial e \<in> S \<and> terminal e \<notin> S"
proof (induction p arbitrary: a)
  case Nil
  then show ?case by simp
next
  case (Cons e p)
  then have e: "e \<in> set g" "initial e = a" "is_path g (terminal e) p b" by auto
  show ?case
  proof (cases "terminal e \<in> S")
    case False
    have "e # p = [] @ e # p \<and> is_path g a [] (initial e)" using e by simp
    with e False Cons.prems(2) show ?thesis by blast
  next
    case True
    from Cons.IH [OF e(3) True Cons.prems(3)] obtain p1 e' p2 where
      d: "p = p1 @ e' # p2" "is_path g (terminal e) p1 (initial e')" "e' \<in> set g"
         "initial e' \<in> S" "terminal e' \<notin> S" by blast
    have "e # p = (e # p1) @ e' # p2 \<and> is_path g a (e # p1) (initial e')"
      using d e by simp
    with d show ?thesis by blast
  qed
qed

subsection \<open>The working graph\<close>

lemma prune_empty: "prune {} g = g"
  by (simp add: prune_def)

lemma removeVertex_prune:
  assumes "c \<noteq> CHR ''Z''"
  shows "removeVertex (prune V g) c = prune (insert c V) g"
  using assms by (auto simp: removeVertex_def prune_def)

lemma prune_from:
  assumes "e \<in> set (prune V g)" "initial e \<noteq> CHR ''Z''"
  shows "e \<in> set g \<and> terminal e \<notin> V"
  using assms by (auto simp: prune_def split: if_splits)

lemma prune_keeps: "e \<in> set g \<Longrightarrow> terminal e \<notin> V \<Longrightarrow> e \<in> set (prune V g)"
  by (force simp: prune_def)

lemma nodeToNumber_inj: "nodeToNumber a = Inr k \<Longrightarrow> nodeToNumber b = Inr k \<Longrightarrow> a = b"
  using nodeToNumber_inverse by (metis sum.inject(2))

lemma numberToNode_index: "m < 7 \<Longrightarrow> \<exists>c. numberToNode m = Inr c"
  unfolding numberToNode_def by (simp split: if_splits)

subsection \<open>findLeast picks a least candidate\<close>

lemma findLeast_loop_min:
  "if \<exists>j < length ws. ws ! j \<noteq> 0 \<and> ws ! j <s base
   then \<exists>m. findLeast_loop ws i base node = Some m \<and> i \<le> m \<and> m < i + length ws \<and>
          ws ! (m - i) \<noteq> 0 \<and> ws ! (m - i) <s base \<and>
          (\<forall>j < length ws. ws ! j \<noteq> 0 \<longrightarrow> ws ! (m - i) \<le>s ws ! j)
   else findLeast_loop ws i base node = node"
proof (induction ws arbitrary: i base node)
  case Nil
  then show ?case by simp
next
  case (Cons w ws)
  let ?tail = "\<lambda>b. \<exists>j < length ws. ws ! j \<noteq> 0 \<and> ws ! j <s b"
  show ?case
  proof (cases "w \<noteq> 0 \<and> w <s base")
    case head: True
    then have cand: "\<exists>j < length (w # ws). (w # ws) ! j \<noteq> 0 \<and> (w # ws) ! j <s base"
      by (intro exI [of _ 0]) simp
    have run: "findLeast_loop (w # ws) i base node = findLeast_loop ws (Suc i) w (Some i)"
      using head by simp
    show ?thesis
    proof (cases "?tail w")
      case True
      with Cons.IH [of w "Suc i" "Some i"] obtain m where
        m: "findLeast_loop ws (Suc i) w (Some i) = Some m" "Suc i \<le> m" "m < Suc i + length ws"
           "ws ! (m - Suc i) \<noteq> 0" "ws ! (m - Suc i) <s w"
           "\<forall>j < length ws. ws ! j \<noteq> 0 \<longrightarrow> ws ! (m - Suc i) \<le>s ws ! j"
        by auto
      from m(2) have idx: "(w # ws) ! (m - i) = ws ! (m - Suc i)"
        by (simp add: nth_Cons' Suc_diff_le)
      have "(w # ws) ! (m - i) \<le>s (w # ws) ! j" if "j < length (w # ws)" "(w # ws) ! j \<noteq> 0" for j
      proof (cases j)
        case 0
        with m(5) idx show ?thesis by (simp add: word_sle_eq word_sless_alt)
      next
        case (Suc j')
        with that m(6) idx show ?thesis by simp
      qed
      moreover have "(w # ws) ! (m - i) <s base"
        using m(5) head idx by (simp add: word_sless_alt)
      ultimately show ?thesis
        using cand run m idx by (auto simp del: findLeast_loop.simps nth_Cons_Suc)
    next
      case False
      with Cons.IH [of w "Suc i" "Some i"]
      have r: "findLeast_loop ws (Suc i) w (Some i) = Some i" by auto
      have "(w # ws) ! (i - i) \<le>s (w # ws) ! j" if "j < length (w # ws)" "(w # ws) ! j \<noteq> 0" for j
      proof (cases j)
        case 0
        then show ?thesis by simp
      next
        case (Suc j')
        with that False have "\<not> ws ! j' <s w" by auto
        with Suc show ?thesis by (simp add: word_sle_eq word_sless_alt)
      qed
      then show ?thesis
        using cand run r head by (auto simp del: findLeast_loop.simps)
    qed
  next
    case head: False
    then have run: "findLeast_loop (w # ws) i base node = findLeast_loop ws (Suc i) base node"
      by auto
    show ?thesis
    proof (cases "?tail base")
      case True
      then have cand: "\<exists>j < length (w # ws). (w # ws) ! j \<noteq> 0 \<and> (w # ws) ! j <s base"
        by auto
      from True Cons.IH [of base "Suc i" node] obtain m where
        m: "findLeast_loop ws (Suc i) base node = Some m" "Suc i \<le> m" "m < Suc i + length ws"
           "ws ! (m - Suc i) \<noteq> 0" "ws ! (m - Suc i) <s base"
           "\<forall>j < length ws. ws ! j \<noteq> 0 \<longrightarrow> ws ! (m - Suc i) \<le>s ws ! j"
        by auto
      from m(2) have idx: "(w # ws) ! (m - i) = ws ! (m - Suc i)"
        by (simp add: nth_Cons' Suc_diff_le)
      have "(w # ws) ! (m - i) \<le>s (w # ws) ! j" if "j < length (w # ws)" "(w # ws) ! j \<noteq> 0" for j
      proof (cases j)
        case 0
        with that head have "\<not> w <s base" by simp
        with m(5) idx 0 show ?thesis by (simp add: word_sle_eq word_sless_alt)
      next
        case (Suc j')
        with that m(6) idx show ?thesis by simp
      qed
      then show ?thesis
        using cand run m idx by (auto simp del: findLeast_loop.simps nth_Cons_Suc)
    next
      case False
      have none: "\<not> (\<exists>j < length (w # ws). (w # ws) ! j \<noteq> 0 \<and> (w # ws) ! j <s base)"
      proof
        assume "\<exists>j < length (w # ws). (w # ws) ! j \<noteq> 0 \<and> (w # ws) ! j <s base"
        then obtain j where j: "j < length (w # ws)" "(w # ws) ! j \<noteq> 0" "(w # ws) ! j <s base"
          by blast
        show False
        proof (cases j)
          case 0
          with j head show False by simp
        next
          case (Suc j')
          with j False show False by auto
        qed
      qed
      from False Cons.IH [of base "Suc i" node]
      have "findLeast_loop ws (Suc i) base node = node" by auto
      with run have "findLeast_loop (w # ws) i base node = node" by simp
      then show ?thesis by (simp only: none if_False)
    qed
  qed
qed

lemma findLeast_min:
  assumes "\<exists>j < length nw. nw ! j \<noteq> 0 \<and> nw ! j <s 42"
  shows "\<exists>m < length nw. findLeast nw = numberToNode m \<and> nw ! m \<noteq> 0 \<and> nw ! m <s 42 \<and>
           (\<forall>j < length nw. nw ! j \<noteq> 0 \<longrightarrow> nw ! m \<le>s nw ! j)"
  using assms findLeast_loop_min [of nw 42 0 None]
  by (auto simp: findLeast_def)

subsection \<open>findNeighbors relaxes the edges out of the current node\<close>

lemma findNeighbors_relax:
  assumes "length nw = 9" "n < 9" "0 \<le> sint (nw ! n)" "sint (nw ! n) < 42"
    and "\<forall>e \<in> set es. initial e = c \<longrightarrow>
           (\<exists>k < 9. nodeToNumber (terminal e) = Inr k) \<and>
           0 \<le> sint (weight e) \<and> sint (weight e) < 2147483606"
  shows "\<exists>nw1. findNeighbors es nw c n = Inr nw1 \<and> length nw1 = 9 \<and> nw1 ! n = nw ! n \<and>
     (\<forall>k < 9. sint (nw1 ! k) \<le> sint (nw ! k)) \<and>
     (\<forall>k < 9. nw1 ! k = nw ! k \<or>
        (\<exists>e \<in> set es. initial e = c \<and> nodeToNumber (terminal e) = Inr k \<and>
           sint (nw1 ! k) = sint (nw ! n) + sint (weight e))) \<and>
     (\<forall>e \<in> set es. initial e = c \<longrightarrow>
        (\<forall>k. nodeToNumber (terminal e) = Inr k \<longrightarrow>
           sint (nw1 ! k) \<le> sint (nw ! n) + sint (weight e)))"
  using assms
proof (induction es arbitrary: nw)
  case Nil
  then show ?case by simp
next
  case (Cons e es)
  have tail: "\<forall>e \<in> set es. initial e = c \<longrightarrow>
           (\<exists>k < 9. nodeToNumber (terminal e) = Inr k) \<and>
           0 \<le> sint (weight e) \<and> sint (weight e) < 2147483606"
    using Cons.prems(5) by simp
  show ?case
  proof (cases "c = initial e")
    case False
    from Cons.IH [OF Cons.prems(1-4) tail] False show ?thesis by auto
  next
    case True
    with Cons.prems(5) obtain m where
      m: "m < 9" "nodeToNumber (terminal e) = Inr m"
      and w: "0 \<le> sint (weight e)" "sint (weight e) < 2147483606" by auto
    define v where "v = weight e + nw ! n"
    have sv: "sint v = sint (weight e) + sint (nw ! n)"
      unfolding v_def using w Cons.prems(3,4) by (intro sint_add32) auto
    define nw2 where "nw2 = (if v <s nw ! m then nw[m := v] else nw)"
    have run: "findNeighbors (e # es) nw c n = findNeighbors es nw2 c n"
      using True m by (simp add: nw2_def v_def)
    have mn: "m \<noteq> n" if "v <s nw ! m"
      using that sv w by (auto simp: word_sless_alt)
    have len2: "length nw2 = 9" using Cons.prems(1) by (simp add: nw2_def)
    have n2: "nw2 ! n = nw ! n" using mn by (auto simp: nw2_def)
    have le2: "sint (nw2 ! k) \<le> sint (nw ! k)" if "k < 9" for k
      using that Cons.prems(1)
      by (cases "k = m") (auto simp: nw2_def word_sless_alt)
    have m2: "sint (nw2 ! m) \<le> sint (nw ! n) + sint (weight e)"
      using m(1) Cons.prems(1) sv by (auto simp: nw2_def word_sless_alt)
    have ch2: "nw2 ! k = nw ! k \<or> (k = m \<and> sint (nw2 ! k) = sint (nw ! n) + sint (weight e))"
      if "k < 9" for k
      using that Cons.prems(1) sv by (cases "k = m") (auto simp: nw2_def)
    from Cons.IH [OF len2 Cons.prems(2) _ _ tail] Cons.prems(3,4) n2
    obtain nw1 where r: "findNeighbors es nw2 c n = Inr nw1" "length nw1 = 9" "nw1 ! n = nw2 ! n"
      and le1: "\<And>k. k < 9 \<Longrightarrow> sint (nw1 ! k) \<le> sint (nw2 ! k)"
      and ch1: "\<And>k. k < 9 \<Longrightarrow> nw1 ! k = nw2 ! k \<or>
        (\<exists>e \<in> set es. initial e = c \<and> nodeToNumber (terminal e) = Inr k \<and>
           sint (nw1 ! k) = sint (nw2 ! n) + sint (weight e))"
      and up1: "\<And>e k. e \<in> set es \<Longrightarrow> initial e = c \<Longrightarrow> nodeToNumber (terminal e) = Inr k \<Longrightarrow>
           sint (nw1 ! k) \<le> sint (nw2 ! n) + sint (weight e)"
      by auto
    have "sint (nw1 ! k) \<le> sint (nw ! k)" if "k < 9" for k
      using le1 [OF that] le2 [OF that] by simp
    moreover have "nw1 ! k = nw ! k \<or>
        (\<exists>e' \<in> set (e # es). initial e' = c \<and> nodeToNumber (terminal e') = Inr k \<and>
           sint (nw1 ! k) = sint (nw ! n) + sint (weight e'))" if "k < 9" for k
      using ch1 [OF that] ch2 [OF that] True m(2) n2 by auto
    moreover have "sint (nw1 ! k) \<le> sint (nw ! n) + sint (weight e')"
      if "e' \<in> set (e # es)" "initial e' = c" "nodeToNumber (terminal e') = Inr k" for e' k
    proof (cases "e' = e")
      case True
      with that(3) m(2) have "k = m" by simp
      with le1 [OF m(1)] m2 True show ?thesis by simp
    next
      case False
      with that(1) have "e' \<in> set es" by simp
      from up1 [OF this that(2,3)] n2 show ?thesis by simp
    qed
    ultimately show ?thesis
      using run r n2 by (auto simp del: findNeighbors.simps)
  qed
qed

subsection \<open>The search on weights that are not negative\<close>

text \<open>
  Every path from the source to a node outside the visited set costs at least the weight
  entry of the node where it first leaves the set.
\<close>

lemma path_leaves_visited:
  assumes safe: "safe_weights g0" and valid: "valid_graph g0"
    and vis: "visited g0 src V nw" and src: "src \<in> V"
    and tent: "\<And>u k. nodeToNumber u = Inr k \<Longrightarrow> u \<notin> V \<Longrightarrow> tentative g0 src V nw u k"
    and path: "is_path g0 src q t" and t: "t \<notin> V"
  shows "\<exists>b k. nodeToNumber b = Inr k \<and> k < 7 \<and> b \<notin> V \<and> 0 < sint (nw ! k) \<and>
           sint (nw ! k) \<le> cost q"
proof -
  from leave_edge [OF path src t] obtain q1 e q2 where
    q: "q = q1 @ e # q2" "is_path g0 src q1 (initial e)" "e \<in> set g0"
       "initial e \<in> V" "terminal e \<notin> V" by blast
  from valid q(3) have "terminal e \<in> set node_letters"
    by (auto simp: valid_graph_def list_all_iff)
  from nodeToNumber_letter [OF this] obtain k where k: "nodeToNumber (terminal e) = Inr k" "k < 7"
    by auto
  from tent [OF k(1) q(5)] have T: "tentative g0 src V nw (terminal e) k" .
  from vis q(4) obtain d where d: "least_cost g0 src (initial e) d"
    by (auto simp: visited_def)
  with q(2) have "d \<le> cost q1" by (auto simp: least_cost_def)
  moreover from T q(3,4) d have "sint (nw ! k) \<le> d + sint (weight e)"
    by (auto simp: tentative_def)
  moreover have "0 \<le> cost q2"
  proof -
    have nn: "\<forall>e \<in> set g0. 0 \<le> sint (weight e)" using safe by (auto simp: safe_weights_def)
    from is_path_edges [OF path] q(1) have "set q2 \<subseteq> set g0" by auto
    from cost_nonneg [OF nn this] show ?thesis .
  qed
  ultimately have "sint (nw ! k) \<le> cost q" using q(1) by simp
  moreover from T have "0 < sint (nw ! k)" by (simp add: tentative_def)
  ultimately show ?thesis using k q(5) by blast
qed

lemma path_from_source_positive:
  assumes nn: "\<forall>e \<in> set g. 0 \<le> sint (weight e)" and sp: "source_edges_positive g src"
    and path: "is_path g src p c" and c: "c \<noteq> src"
  shows "0 < cost p"
proof -
  from leave_edge [OF path, of "{src}"] c obtain p1 e p2 where
    p: "p = p1 @ e # p2" "e \<in> set g" "initial e = src" "terminal e \<noteq> src" by auto
  from sp p(2-4) have "0 < sint (weight e)"
    by (auto simp: source_edges_positive_def list_all_iff word_sless_alt)
  moreover from is_path_edges [OF path] p(1) have "set p1 \<subseteq> set g" "set p2 \<subseteq> set g" by auto
  then have "0 \<le> cost p1" "0 \<le> cost p2" using cost_nonneg [OF nn] by auto
  ultimately show ?thesis using p(1) by simp
qed

lemma search_step:
  assumes inv: "search_inv g0 src V g nw c n"
    and safe: "safe_weights g0" and sp: "source_edges_positive g0 src"
    and valid: "valid_graph g0"
    and path: "is_path g0 src q t" and small: "cost q < 42"
    and tV: "t \<notin> V" and tc: "t \<noteq> c"
  shows "\<exists>g' nw' c' n'. route_step g nw c n = Inr (g', nw', c', n') \<and>
           search_inv g0 src (insert c V) g' nw' c' n'"
proof -
  from inv have cn: "nodeToNumber c = Inr n" and len: "length nw = 9"
    and n78: "nw ! 7 = 42" "nw ! 8 = 42" and cV: "c \<notin> V" and g: "g = prune V g0"
    and src: "src \<in> insert c V" and vis: "visited g0 src V nw"
    and lc: "least_cost g0 src c (sint (nw ! n))" and d42: "sint (nw ! n) < 42"
    and tent: "\<And>u k. nodeToNumber u = Inr k \<Longrightarrow> u \<notin> V \<Longrightarrow> u \<noteq> c \<Longrightarrow> tentative g0 src V nw u k"
    by (auto simp: search_inv_def)
  from cn have cZ: "c \<noteq> CHR ''Z''" by (rule nodeToNumber_not_Z)
  from nodeToNumber_inverse [OF cn] have n7: "n < 7" by simp
  have nn: "\<forall>e \<in> set g0. 0 \<le> sint (weight e)" using safe by (auto simp: safe_weights_def)
  from lc obtain pc where pc: "is_path g0 src pc c" "cost pc = sint (nw ! n)"
    by (auto simp: least_cost_def)
  from cost_nonneg [OF nn is_path_edges [OF pc(1)]] pc(2) have d0: "0 \<le> sint (nw ! n)" by simp
  have from_c: "e \<in> set g0 \<and> terminal e \<notin> V" if "e \<in> set g" "initial e = c" for e
    using prune_from [of e V g0] that g cZ by simp
  have "\<forall>e \<in> set g. initial e = c \<longrightarrow>
           (\<exists>k < 9. nodeToNumber (terminal e) = Inr k) \<and>
           0 \<le> sint (weight e) \<and> sint (weight e) < 2147483606"
  proof (intro ballI impI)
    fix e assume e: "e \<in> set g" "initial e = c"
    from from_c [OF e] have e0: "e \<in> set g0" by simp
    with valid have "terminal e \<in> set node_letters"
      by (auto simp: valid_graph_def list_all_iff)
    from nodeToNumber_letter [OF this] obtain k where "nodeToNumber (terminal e) = Inr k" "k < 7"
      by auto
    then have "\<exists>k < 9. nodeToNumber (terminal e) = Inr k" by auto
    with e0 safe show "(\<exists>k < 9. nodeToNumber (terminal e) = Inr k) \<and>
           0 \<le> sint (weight e) \<and> sint (weight e) < 2147483606"
      by (auto simp: safe_weights_def)
  qed
  from findNeighbors_relax [OF len _ d0 d42 this] n7
  obtain nw1 where fn: "findNeighbors g nw c n = Inr nw1" and len1: "length nw1 = 9"
    and le1: "\<And>k. k < 9 \<Longrightarrow> sint (nw1 ! k) \<le> sint (nw ! k)"
    and ch1: "\<And>k. k < 9 \<Longrightarrow> nw1 ! k = nw ! k \<or>
        (\<exists>e \<in> set g. initial e = c \<and> nodeToNumber (terminal e) = Inr k \<and>
           sint (nw1 ! k) = sint (nw ! n) + sint (weight e))"
    and up1: "\<And>e k. e \<in> set g \<Longrightarrow> initial e = c \<Longrightarrow> nodeToNumber (terminal e) = Inr k \<Longrightarrow>
           sint (nw1 ! k) \<le> sint (nw ! n) + sint (weight e)"
    by auto
  define nw' where "nw' = nw1[n := 0]"
  define g' where "g' = removeVertex g c"
  define V' where "V' = insert c V"
  have len': "length nw' = 9" using len1 by (simp add: nw'_def)
  have g'_eq: "g' = prune V' g0"
    unfolding g'_def V'_def g by (rule removeVertex_prune [OF cZ])
  have other: "nw' ! k = nw1 ! k" if "k \<noteq> n" for k
    using that by (simp add: nw'_def)
  have n78': "nw' ! 7 = 42" "nw' ! 8 = 42"
  proof -
    have "nw1 ! k = nw ! k" if "k = 7 \<or> k = 8" for k
    proof -
      from that have k9: "k < 9" by auto
      from ch1 [OF k9] show ?thesis
      proof
        assume "nw1 ! k = nw ! k"
        then show ?thesis .
      next
        assume "\<exists>e \<in> set g. initial e = c \<and> nodeToNumber (terminal e) = Inr k \<and>
           sint (nw1 ! k) = sint (nw ! n) + sint (weight e)"
        then obtain e :: edgeWeight where "nodeToNumber (terminal e) = Inr k" by blast
        from nodeToNumber_inverse [OF this] that show ?thesis by auto
      qed
    qed
    from this [of 7] this [of 8] n78 n7 show "nw' ! 7 = 42" "nw' ! 8 = 42"
      by (simp_all add: nw'_def)
  qed
  have vis': "visited g0 src V' nw'"
    unfolding visited_def
  proof
    fix v assume "v \<in> V'"
    then consider "v = c" | "v \<in> V" by (auto simp: V'_def)
    then show "\<exists>k d. nodeToNumber v = Inr k \<and> nw' ! k = 0 \<and> least_cost g0 src v d"
    proof cases
      case 1
      with cn lc len1 n7 show ?thesis by (auto simp: nw'_def)
    next
      case 2
      with vis obtain k d where k: "nodeToNumber v = Inr k" "nw ! k = 0" "least_cost g0 src v d"
        by (auto simp: visited_def)
      from nodeToNumber_inverse [OF k(1)] have k7: "k < 7" by simp
      have kn: "k \<noteq> n" using k(1) cn 2 cV nodeToNumber_inj by blast
      have "nw1 ! k = nw ! k"
      proof -
        from k7 have "k < 9" by simp
        from ch1 [OF this] show ?thesis
        proof
          assume "nw1 ! k = nw ! k"
          then show ?thesis .
        next
          assume "\<exists>e \<in> set g. initial e = c \<and> nodeToNumber (terminal e) = Inr k \<and>
             sint (nw1 ! k) = sint (nw ! n) + sint (weight e)"
          then obtain e where e: "e \<in> set g" "initial e = c" "nodeToNumber (terminal e) = Inr k"
            by blast
          from nodeToNumber_inj [OF e(3) k(1)] have "terminal e = v" .
          with from_c [OF e(1,2)] 2 show ?thesis by simp
        qed
      qed
      with k other [OF kn] show ?thesis by auto
    qed
  qed
  have tent': "tentative g0 src V' nw' u k" if u: "nodeToNumber u = Inr k" "u \<notin> V'" for u k
  proof -
    from u(2) have uV: "u \<notin> V" and uc: "u \<noteq> c" by (auto simp: V'_def)
    from nodeToNumber_inverse [OF u(1)] have k9: "k < 9" by simp
    have kn: "k \<noteq> n" using u(1) cn uc nodeToNumber_inj by blast
    from tent [OF u(1) uV uc] have T: "tentative g0 src V nw u k" .
    have val: "nw' ! k = nw1 ! k" by (rule other [OF kn])
    have via: "e \<in> set g0 \<and> initial e = c \<and> terminal e = u"
      if "e \<in> set g" "initial e = c" "nodeToNumber (terminal e) = Inr k" for e
      using from_c [OF that(1,2)] that(2) nodeToNumber_inj [OF that(3) u(1)] by simp
    have pos: "0 < sint (nw1 ! k)"
    proof -
      from ch1 [OF k9] show ?thesis
      proof
        assume "nw1 ! k = nw ! k"
        with T show ?thesis by (simp add: tentative_def)
      next
        assume "\<exists>e \<in> set g. initial e = c \<and> nodeToNumber (terminal e) = Inr k \<and>
             sint (nw1 ! k) = sint (nw ! n) + sint (weight e)"
        then obtain e where e: "e \<in> set g" "initial e = c" "nodeToNumber (terminal e) = Inr k"
          "sint (nw1 ! k) = sint (nw ! n) + sint (weight e)" by blast
        from via [OF e(1-3)] have e0: "e \<in> set g0" "initial e = c" "terminal e = u" by auto
        with safe have w0: "0 \<le> sint (weight e)" by (auto simp: safe_weights_def)
        show ?thesis
        proof (cases "c = src")
          case True
          with sp e0 uc have "0 < sint (weight e)"
            by (auto simp: source_edges_positive_def list_all_iff word_sless_alt)
          with e(4) d0 show ?thesis by simp
        next
          case False
          from path_from_source_positive [OF nn sp pc(1) False] pc(2)
          have "0 < sint (nw ! n)" by simp
          with e(4) w0 show ?thesis by simp
        qed
      qed
    qed
    have le42: "sint (nw1 ! k) \<le> 42"
      using le1 [OF k9] T by (simp add: tentative_def)
    have real: "\<exists>p. is_path g0 src p u \<and> cost p = sint (nw1 ! k)" if "sint (nw1 ! k) < 42"
    proof -
      from ch1 [OF k9] show ?thesis
      proof
        assume "nw1 ! k = nw ! k"
        with T that show ?thesis by (simp add: tentative_def)
      next
        assume "\<exists>e \<in> set g. initial e = c \<and> nodeToNumber (terminal e) = Inr k \<and>
             sint (nw1 ! k) = sint (nw ! n) + sint (weight e)"
        then obtain e where e: "e \<in> set g" "initial e = c" "nodeToNumber (terminal e) = Inr k"
          "sint (nw1 ! k) = sint (nw ! n) + sint (weight e)" by blast
        from via [OF e(1-3)] have e0: "e \<in> set g0" "initial e = c" "terminal e = u" by auto
        from is_path_snoc [OF pc(1) e0(1,2)] e0(3) have "is_path g0 src (pc @ [e]) u" by simp
        moreover have "cost (pc @ [e]) = sint (nw1 ! k)" using pc(2) e(4) by simp
        ultimately show ?thesis by blast
      qed
    qed
    have upper: "sint (nw1 ! k) \<le> d + sint (weight e)"
      if e: "e \<in> set g0" "initial e \<in> V'" "terminal e = u" "least_cost g0 src (initial e) d"
      for e d
    proof (cases "initial e = c")
      case True
      with e(4) lc have d: "d = sint (nw ! n)" using least_cost_unique by blast
      from e(1,3) uV have "e \<in> set g" unfolding g by (intro prune_keeps) auto
      from up1 [OF this True] e(3) u(1) d show ?thesis by simp
    next
      case False
      with e(2) have "initial e \<in> V" by (simp add: V'_def)
      with T e(1,3,4) have "sint (nw ! k) \<le> d + sint (weight e)" by (auto simp: tentative_def)
      with le1 [OF k9] show ?thesis by simp
    qed
    show ?thesis
      unfolding tentative_def val using pos le42 real upper by blast
  qed
  have src': "src \<in> V'" using src by (simp add: V'_def)
  have tV': "t \<notin> V'" using tV tc by (simp add: V'_def)
  from path_leaves_visited [OF safe valid vis' src' tent' path tV']
  obtain b kb where b: "nodeToNumber b = Inr kb" "kb < 7" "0 < sint (nw' ! kb)"
    "sint (nw' ! kb) \<le> cost q" by blast
  have "kb < length nw' \<and> nw' ! kb \<noteq> 0 \<and> nw' ! kb <s 42"
    using b small len' by (auto simp: word_sless_alt)
  then have "\<exists>j < length nw'. nw' ! j \<noteq> 0 \<and> nw' ! j <s 42" by blast
  from findLeast_min [OF this] len' obtain m where
    m: "m < 9" "findLeast nw' = numberToNode m" "nw' ! m \<noteq> 0" "nw' ! m <s 42"
    and least: "\<And>j. j < 9 \<Longrightarrow> nw' ! j \<noteq> 0 \<Longrightarrow> nw' ! m \<le>s nw' ! j"
    by auto
  have m7: "m < 7"
  proof (rule ccontr)
    assume "\<not> m < 7"
    with m(1) have "m = 7 \<or> m = 8" by auto
    with n78' m(4) show False by auto
  qed
  from numberToNode_index [OF this] obtain c' where c': "numberToNode m = Inr c'"
    by blast
  from numberToNode_inverse [OF c'] have c'm: "nodeToNumber c' = Inr m" by simp
  have c'V: "c' \<notin> V'"
  proof
    assume "c' \<in> V'"
    with vis' obtain k where "nodeToNumber c' = Inr k" "nw' ! k = 0" by (auto simp: visited_def)
    with c'm m(3) show False by simp
  qed
  from tent' [OF c'm c'V] have Tm: "tentative g0 src V' nw' c' m" .
  have lc': "least_cost g0 src c' (sint (nw' ! m))"
    unfolding least_cost_def
  proof (intro conjI allI impI)
    from Tm m(4) show "\<exists>p. is_path g0 src p c' \<and> cost p = sint (nw' ! m)"
      by (simp add: tentative_def word_sless_alt)
  next
    fix p assume p: "is_path g0 src p c'"
    from path_leaves_visited [OF safe valid vis' src' tent' p c'V]
    obtain k where bk: "k < 7" "0 < sint (nw' ! k)" "sint (nw' ! k) \<le> cost p" by blast
    then have "k < 9" "nw' ! k \<noteq> 0" by auto
    from least [OF this] have "sint (nw' ! m) \<le> sint (nw' ! k)" by (simp add: word_sle_eq)
    with bk(3) show "sint (nw' ! m) \<le> cost p" by simp
  qed
  have "search_inv g0 src V' g' nw' c' m"
    unfolding search_inv_def
    using c'm len' n78' c'V g'_eq src' vis' lc' m(4) tent'
    by (auto simp: word_sless_alt)
  moreover have "route_step g nw c n = Inr (g', nw', c', m)"
    unfolding nw'_def g'_def using fn m(2) c' c'm
    by (simp add: route_step_def Let_def nw'_def [symmetric])
  ultimately show ?thesis unfolding V'_def by blast
qed

lemma search_loop:
  assumes safe: "safe_weights g0" and sp: "source_edges_positive g0 src"
    and valid: "valid_graph g0"
  shows "search_inv g0 src V g nw c n \<Longrightarrow> is_path g0 src q t \<Longrightarrow> cost q < 42 \<Longrightarrow> t \<notin> V \<Longrightarrow>
           \<exists>d. route_loop t g nw c n = Inr (d, t) \<and> least_cost g0 src t (sint d)"
proof (induction t g nw c n arbitrary: V rule: route_loop.induct)
  case (1 t g nw c n)
  show ?case
  proof (cases "c = t")
    case True
    with "1.prems"(1) have "least_cost g0 src t (sint (nw ! n))"
      by (simp add: search_inv_def)
    with True show ?thesis by simp
  next
    case False
    then have tc: "t \<noteq> c" by simp
    from search_step [OF "1.prems"(1) safe sp valid "1.prems"(2,3,4) tc]
    obtain g' nw' c' n' where
      s: "route_step g nw c n = Inr (g', nw', c', n')"
      and i: "search_inv g0 src (insert c V) g' nw' c' n'" by blast
    from "1.prems"(4) tc have "t \<notin> insert c V" by simp
    from "1.IH" [OF False s refl refl refl i "1.prems"(2,3) this]
    obtain d where "route_loop t g' nw' c' n' = Inr (d, t)" "least_cost g0 src t (sint d)"
      by blast
    with False s show ?thesis by simp
  qed
qed

lemma search_init:
  assumes n: "nodeToNumber src = Inr n" and safe: "safe_weights g0"
  shows "search_inv g0 src {} g0 (initializeNodeWeight[n := 0]) src n"
proof -
  let ?nw = "initializeNodeWeight[n := 0]"
  from nodeToNumber_inverse [OF n] have n7: "n < 7" by simp
  have nn: "\<forall>e \<in> set g0. 0 \<le> sint (weight e)" using safe by (auto simp: safe_weights_def)
  have len: "length ?nw = 9" by (simp add: initializeNodeWeight_def VERTEX_COUNT_def)
  have at_n: "?nw ! n = 0"
    using n7 by (simp add: initializeNodeWeight_def VERTEX_COUNT_def)
  have other: "?nw ! k = 42" if "k < 9" "k \<noteq> n" for k
    using that by (simp add: initializeNodeWeight_def VERTEX_COUNT_def INFINITY_APPROX_def)
  have "tentative g0 src {} ?nw u k" if "nodeToNumber u = Inr k" "u \<noteq> src" for u k
  proof -
    from nodeToNumber_inverse [OF that(1)] have "k < 9" by simp
    moreover have "k \<noteq> n" using that n nodeToNumber_inj by blast
    ultimately have "?nw ! k = 42" by (rule other)
    then show ?thesis by (simp add: tentative_def)
  qed
  moreover have "least_cost g0 src src (sint (?nw ! n))"
    using least_cost_self [OF nn] at_n by simp
  moreover have "?nw ! 7 = 42" "?nw ! 8 = 42"
    using n7 other [of 7] other [of 8] by simp_all
  ultimately show ?thesis
    using n len at_n by (simp add: search_inv_def prune_empty visited_def)
qed

subsection \<open>Paths without repeated edges\<close>

lemma simple_path:
  "is_path g a p b \<Longrightarrow> \<exists>q. is_path g a q b \<and> distinct q"
proof (induction p rule: length_induct)
  case (1 p)
  show ?case
  proof (cases "distinct p")
    case True
    with "1.prems" show ?thesis by blast
  next
    case False
    from not_distinct_decomp [OF this] obtain xs ys zs y where
      p: "p = xs @ [y] @ ys @ [y] @ zs" by blast
    from "1.prems" [unfolded p is_path_append] obtain c1 c2 c3 where
      "is_path g a xs c1" "is_path g c1 [y] c2" "is_path g c2 ys c3" "is_path g c3 (y # zs) b"
      by auto
    then have "is_path g a (xs @ y # zs) b"
      by (auto simp: is_path_append)
    moreover have "length (xs @ y # zs) < length p" by (simp add: p)
    ultimately show ?thesis using "1.IH" by blast
  qed
qed

lemma sum_set_le_sum_list:
  fixes f :: "'a \<Rightarrow> int"
  assumes "\<forall>x \<in> set xs. 0 \<le> f x"
  shows "(\<Sum>x \<in> set xs. f x) \<le> sum_list (map f xs)"
  using assms
proof (induction xs)
  case Nil
  then show ?case by simp
next
  case (Cons a xs)
  then have IH: "(\<Sum>x \<in> set xs. f x) \<le> sum_list (map f xs)" and a: "0 \<le> f a" by auto
  show ?case
  proof (cases "a \<in> set xs")
    case True
    then have "set (a # xs) = set xs" by auto
    with IH a show ?thesis by simp
  next
    case False
    with IH show ?thesis by simp
  qed
qed

lemma distinct_cost_le:
  assumes nn: "\<forall>e \<in> set g. 0 \<le> sint (weight e)" and d: "distinct q" and sub: "set q \<subseteq> set g"
  shows "cost q \<le> cost g"
proof -
  have "cost q = (\<Sum>e \<in> set q. sint (weight e))"
    unfolding cost_def using d by (simp add: sum_list_distinct_conv_sum_set)
  also have "\<dots> \<le> (\<Sum>e \<in> set g. sint (weight e))"
    using nn sub by (intro sum_mono2) auto
  also have "\<dots> \<le> cost g"
    unfolding cost_def by (rule sum_set_le_sum_list [OF nn])
  finally show ?thesis .
qed

lemma weight_le_cost:
  assumes nn: "\<forall>e \<in> set g. 0 \<le> sint (weight e)" and e: "e \<in> set g"
  shows "sint (weight e) \<le> cost g"
proof -
  have "distinct [e]" "set [e] \<subseteq> set g" using e by auto
  from distinct_cost_le [OF nn this] show ?thesis by simp
qed

lemma safe_weights_small:
  assumes "nonnegative_weights g" "cost g < 42"
  shows "safe_weights g"
proof -
  from assms(1) have nn: "\<forall>e \<in> set g. 0 \<le> sint (weight e)"
    by (auto simp: nonnegative_weights_def list_all_iff word_sle_eq)
  have "sint (weight e) < 2147483606" if "e \<in> set g" for e
    using weight_le_cost [OF nn that] assms(2) by simp
  with nn show ?thesis by (simp add: safe_weights_def)
qed

subsection \<open>The distance returned by the search\<close>

text \<open>
  C1 fails on the code. \<open>maze_zero\<close> has 18 edges between node letters, weights that are
  not negative and a sum of weights below 42. The path from \<open>E\<close> over \<open>A\<close> and \<open>B\<close> to \<open>M\<close>
  costs 3, and \<^verbatim>\<open>findRoute\<close> from \<open>E\<close> to \<open>M\<close> returns 10, which is not the least sum of
  weights. The edge of weight 0 out of \<open>E\<close> leaves the entry of \<open>A\<close> at 0, the value that
  marks a visited node, so \<^verbatim>\<open>findLeast\<close> never selects \<open>A\<close>.
\<close>

theorem findRoute_zero_weight_run:
  "length maze_zero = VERTEX_COUNT \<and> valid_graph maze_zero \<and> nonnegative_weights maze_zero
   \<and> cost maze_zero < 42
   \<and> is_path maze_zero (CHR ''E'')
        [edge (CHR ''E'') (CHR ''A'') 0, edge (CHR ''A'') (CHR ''B'') 1,
         edge (CHR ''B'') (CHR ''M'') 2] (CHR ''M'')
   \<and> cost [edge (CHR ''E'') (CHR ''A'') 0, edge (CHR ''A'') (CHR ''B'') 1,
            edge (CHR ''B'') (CHR ''M'') 2] = 3
   \<and> findRoute maze_zero (CHR ''E'') (CHR ''M'') = Inr (10, CHR ''M'')"
proof -
  have "findRoute maze_zero (CHR ''E'') (CHR ''M'') = Inr (10, CHR ''M'')"
    by code_simp
  then show ?thesis
    by (simp add: maze_zero_def maze_def edge_def valid_graph_def nonnegative_weights_def
        node_letters_def VERTEX_COUNT_def cost_def word_sle_eq)
qed

text \<open>
  Where the search is right. For every graph of 18 edges between node letters whose
  weights are not negative and sum to less than 42, every node letter \<open>src\<close> whose edges
  to other nodes have positive weights, and every \<open>t\<close> that a path from \<open>src\<close> reaches,
  \<^verbatim>\<open>findRoute\<close> returns, with \<open>t\<close> as the new location, a distance that is the cost of a
  path from \<open>src\<close> to \<open>t\<close> and at most the cost of every such path.
\<close>

theorem findRoute_least_cost:
  assumes "length g = VERTEX_COUNT" and "valid_graph g" and "nonnegative_weights g"
    and "source_edges_positive g src" and "cost g < 42"
    and "src \<in> set node_letters" and "reachable g src t"
  shows "\<exists>d. findRoute g src t = Inr (d, t) \<and> least_cost g src t (sint d)"
proof -
  from assms(3,5) have safe: "safe_weights g" by (rule safe_weights_small)
  then have nn: "\<forall>e \<in> set g. 0 \<le> sint (weight e)" by (auto simp: safe_weights_def)
  from assms(7) obtain p where "is_path g src p t" by (auto simp: reachable_def)
  from simple_path [OF this] obtain q where q: "is_path g src q t" "distinct q" by blast
  from distinct_cost_le [OF nn q(2) is_path_edges [OF q(1)]] assms(5)
  have small: "cost q < 42" by simp
  from nodeToNumber_letter [OF assms(6)] obtain n where n: "nodeToNumber src = Inr n" by auto
  from search_loop [OF safe assms(4,2) search_init [OF n safe] q(1) small] n
  show ?thesis by (simp add: findRoute_def)
qed

theorem findRoute_least_cost_witness:
  "length maze_inner_zero = VERTEX_COUNT \<and> valid_graph maze_inner_zero
   \<and> nonnegative_weights maze_inner_zero
   \<and> source_edges_positive maze_inner_zero (CHR ''E'') \<and> cost maze_inner_zero < 42
   \<and> CHR ''E'' \<in> set node_letters \<and> reachable maze_inner_zero (CHR ''E'') (CHR ''M'')
   \<and> findRoute maze_inner_zero (CHR ''E'') (CHR ''M'') = Inr (2, CHR ''M'')
   \<and> least_cost maze_inner_zero (CHR ''E'') (CHR ''M'') 2"
proof -
  have h: "length maze_inner_zero = VERTEX_COUNT" "valid_graph maze_inner_zero"
    "nonnegative_weights maze_inner_zero" "source_edges_positive maze_inner_zero (CHR ''E'')"
    "cost maze_inner_zero < 42" "CHR ''E'' \<in> set node_letters"
    by (simp_all add: maze_inner_zero_def maze_def edge_def valid_graph_def
        nonnegative_weights_def source_edges_positive_def node_letters_def VERTEX_COUNT_def
        cost_def word_sless_alt word_sle_eq)
  have "is_path maze_inner_zero (CHR ''E'')
        [edge (CHR ''E'') (CHR ''A'') 1, edge (CHR ''A'') (CHR ''B'') 1,
         edge (CHR ''B'') (CHR ''M'') 0] (CHR ''M'')"
    by (simp add: maze_inner_zero_def maze_def edge_def)
  then have r: "reachable maze_inner_zero (CHR ''E'') (CHR ''M'')"
    unfolding reachable_def by blast
  have e: "findRoute maze_inner_zero (CHR ''E'') (CHR ''M'') = Inr (2, CHR ''M'')"
    by code_simp
  from findRoute_least_cost [OF h r] e
  have "least_cost maze_inner_zero (CHR ''E'') (CHR ''M'') 2"
    by simp
  with h r e show ?thesis by simp
qed

end
